theory Spec2Isabelle
  imports Complex_Main "HOL-Library.Multiset" "HOL-Library.Log_Nat"
begin

section \<open>JavaScript arrays and \<open>Array.prototype.splice\<close>\<close>

text \<open>
  A JavaScript array is modelled as a list. Where an array can come to hold the value
  \<open>undefined\<close> its elements have type \<open>'a option\<close>, \<open>None\<close> standing for
  \<open>undefined\<close>. Indices are mathematical integers: the drag-and-drop library hands
  the handler integral numbers, and \<open>splice\<close> itself accepts any of them.
\<close>

text \<open>
  The start position \<open>splice\<close> really uses: a negative start counts from the end
  and is cut off at 0, any other start is cut off at the length.
\<close>

definition actualStart :: "nat \<Rightarrow> int \<Rightarrow> nat" where
  "actualStart len start =
     (if start < 0 then nat (max (int len + start) 0) else nat (min start (int len)))"

text \<open>
  \<open>arr.splice(start, deleteCount, ...items)\<close>: the first component is the array of
  removed elements that the call returns, the second is \<open>arr\<close> after the call.
\<close>

definition splice :: "'a list \<Rightarrow> int \<Rightarrow> int \<Rightarrow> 'a list \<Rightarrow> 'a list \<times> 'a list" where
  "splice arr start deleteCount items =
     (let len = length arr;
          k = actualStart len start;
          dc = nat (min (max deleteCount 0) (int len - int k))
      in (take dc (drop k arr), take k arr @ items @ drop (k + dc) arr))"

text \<open>
  The destructuring \<open>const [removed] = ...\<close>: the first element of the array on the
  right, \<open>undefined\<close> when that array is empty.
\<close>

definition firstElement :: "'a option list \<Rightarrow> 'a option" where
  "firstElement ys = (case ys of [] \<Rightarrow> None | y # _ \<Rightarrow> y)"

text \<open>
  The pair of \<open>splice\<close> calls that \<open>handleDragEnd\<close> applies to a fresh copy of an
  array: take one element out at \<open>sourceIndex\<close>, put what came out back in at
  \<open>destIndex\<close>.
\<close>

definition spliceMove :: "'a option list \<Rightarrow> int \<Rightarrow> int \<Rightarrow> 'a option list" where
  "spliceMove arr sourceIndex destIndex =
     (let (removedList, arr1) = splice arr sourceIndex 1 [];
          removed = firstElement removedList;
          (_, arr2) = splice arr1 destIndex 0 [removed]
      in arr2)"

text \<open>\<open>Array.from\<close> on an array of objects: a copy, none of whose elements is \<open>undefined\<close>.\<close>

definition Array_from :: "'a list \<Rightarrow> 'a option list" where
  "Array_from xs = map Some xs"

section \<open>JavaScript numbers\<close>

text \<open>
  A JavaScript number is an IEEE 754 double: a finite value, an infinity or NaN. A
  finite double is given by the real number it stands for; the two zeros are not told
  apart, since no operation below depends on the sign of a zero.
\<close>

datatype jsnum = Fin real | PInf | NInf | NaN

text \<open>Rounding to the nearest integer, a tie going to the even one.\<close>

definition roundHalfEven :: "real \<Rightarrow> int" where
  "roundHalfEven z =
     (let f = \<lfloor>z\<rfloor>; r = z - of_int f
      in if r < 1 / 2 then f else if r > 1 / 2 then f + 1 else if even f then f else f + 1)"

text \<open>
  For \<open>a > 0\<close>, the exponent \<open>e\<close> for which \<open>a\<close> lies from 2 to the power \<open>e\<close> up
  to, not including, 2 to the power \<open>e + 1\<close>; the exponent that a double uses, which
  is at least -1022; and the distance between neighbouring doubles around \<open>a\<close>, which
  is 52 binary places below that exponent.
\<close>

definition binaryExponent :: "real \<Rightarrow> int" where
  "binaryExponent a = (if a \<ge> 1 then bitlen \<lfloor>a\<rfloor> - 1 else - bitlen (\<lceil>1 / a\<rceil> - 1))"

definition clampedExponent :: "real \<Rightarrow> int" where
  "clampedExponent a = max (binaryExponent a) (- 1022)"

definition quantum :: "real \<Rightarrow> real" where
  "quantum a = 2 powi (clampedExponent a - 52)"

text \<open>
  The result of an arithmetic operation is its exact result rounded to the nearest
  double, a tie going to the double with an even significand; a result that rounds to
  2 to the power 1024 or beyond is an infinity.
\<close>

definition roundMagnitude :: "real \<Rightarrow> real" where
  "roundMagnitude a = of_int (roundHalfEven (a / quantum a)) * quantum a"

definition fl :: "real \<Rightarrow> jsnum" where
  "fl x =
     (if x = 0 then Fin 0
      else
        let m = roundMagnitude \<bar>x\<bar>
        in if m \<ge> 2 powi 1024 then (if x > 0 then PInf else NInf)
           else Fin (if x > 0 then m else - m))"

text \<open>
  The reals that are doubles: those that rounding leaves as they are. Every finite
  result of an operation below is one; a number read from a stored document is one too.
\<close>

definition isDouble :: "real \<Rightarrow> bool" where
  "isDouble x = (fl x = Fin x)"

text \<open>The operators \<open>-x\<close>, \<open>+\<close>, \<open>-\<close>, \<open>*\<close> and \<open>/\<close> on numbers.\<close>

fun jneg :: "jsnum \<Rightarrow> jsnum" where
  "jneg (Fin x) = Fin (- x)"
| "jneg PInf = NInf"
| "jneg NInf = PInf"
| "jneg NaN = NaN"

fun jadd :: "jsnum \<Rightarrow> jsnum \<Rightarrow> jsnum" where
  "jadd (Fin x) (Fin y) = fl (x + y)"
| "jadd NaN _ = NaN"
| "jadd _ NaN = NaN"
| "jadd PInf NInf = NaN"
| "jadd NInf PInf = NaN"
| "jadd PInf _ = PInf"
| "jadd _ PInf = PInf"
| "jadd NInf _ = NInf"
| "jadd _ NInf = NInf"

definition jsub :: "jsnum \<Rightarrow> jsnum \<Rightarrow> jsnum" where
  "jsub a b = jadd a (jneg b)"

fun jmul :: "jsnum \<Rightarrow> jsnum \<Rightarrow> jsnum" where
  "jmul (Fin x) (Fin y) = fl (x * y)"
| "jmul NaN _ = NaN"
| "jmul _ NaN = NaN"
| "jmul (Fin x) PInf = (if x = 0 then NaN else if x > 0 then PInf else NInf)"
| "jmul (Fin x) NInf = (if x = 0 then NaN else if x > 0 then NInf else PInf)"
| "jmul PInf (Fin y) = (if y = 0 then NaN else if y > 0 then PInf else NInf)"
| "jmul NInf (Fin y) = (if y = 0 then NaN else if y > 0 then NInf else PInf)"
| "jmul PInf PInf = PInf"
| "jmul PInf NInf = NInf"
| "jmul NInf PInf = NInf"
| "jmul NInf NInf = PInf"

text \<open>
  Division. A zero divisor is taken as the positive zero; the page divides by the
  budget only when the budget is greater than 0.
\<close>

fun jdiv :: "jsnum \<Rightarrow> jsnum \<Rightarrow> jsnum" where
  "jdiv (Fin x) (Fin y) =
     (if y = 0 then (if x = 0 then NaN else if x > 0 then PInf else NInf) else fl (x / y))"
| "jdiv NaN _ = NaN"
| "jdiv _ NaN = NaN"
| "jdiv (Fin x) PInf = Fin 0"
| "jdiv (Fin x) NInf = Fin 0"
| "jdiv PInf (Fin y) = (if y \<ge> 0 then PInf else NInf)"
| "jdiv NInf (Fin y) = (if y \<ge> 0 then NInf else PInf)"
| "jdiv PInf PInf = NaN"
| "jdiv PInf NInf = NaN"
| "jdiv NInf PInf = NaN"
| "jdiv NInf NInf = NaN"

text \<open>The comparisons \<open>>=\<close> and \<open>>\<close>, false whenever an operand is NaN.\<close>

fun jge :: "jsnum \<Rightarrow> jsnum \<Rightarrow> bool" where
  "jge NaN _ = False"
| "jge _ NaN = False"
| "jge PInf _ = True"
| "jge _ NInf = True"
| "jge (Fin x) (Fin y) = (x \<ge> y)"
| "jge _ _ = False"

fun jgt :: "jsnum \<Rightarrow> jsnum \<Rightarrow> bool" where
  "jgt NaN _ = False"
| "jgt _ NaN = False"
| "jgt (Fin x) (Fin y) = (x > y)"
| "jgt PInf PInf = False"
| "jgt PInf _ = True"
| "jgt NInf _ = False"
| "jgt _ NInf = True"
| "jgt _ PInf = False"

text \<open>
  A value of a property of a plain object, as far as the category breakdown needs it:
  a number or a string.
\<close>

datatype jsval = NumV jsnum | StrV string

section \<open>Data model\<close>

text \<open>
  An activity as \<open>addNewActivity\<close> stores it. The cost is a number
  (\<open>parseFloat(...) || 0\<close>); a field that a stored document can lack is an option,
  \<open>None\<close> standing for the missing field.
\<close>

record activity =
  activity_id :: string
  name :: string
  description :: string
  location :: string
  startTime :: string
  endTime :: string
  cost :: "jsnum option"
  category :: "string option"

text \<open>
  An itinerary day as \<open>addNewDay\<close> stores it: the document of the collection
  \<open>itineraries\<close> together with its document id.
\<close>

record day =
  day_id :: string
  tripId :: string
  date :: string
  title :: string
  day_description :: string
  activities :: "activity list option"
  order :: nat
  createdAt :: string

text \<open>
  The result object that the drag-and-drop library passes to \<open>handleDragEnd\<close>; its
  field \<open>type\<close> is \<open>dragType\<close> here.
\<close>

record draggableLocation =
  droppableId :: string
  index :: int

record dropResult =
  source :: draggableLocation
  destination :: "draggableLocation option"
  dragType :: string

text \<open>
  A call of \<open>updateDoc(doc(db, 'itineraries', id), fields)\<close>, with the two shapes of
  \<open>fields\<close> that \<open>handleDragEnd\<close> writes.
\<close>

datatype docWrite =
    UpdateOrder string nat
  | UpdateActivities string "activity option list"

datatype js_error = TypeError

section \<open>The drag-and-drop handler\<close>

text \<open>
  \<open>handleDragEnd\<close> of \<open>ItineraryBuilderPage.jsx\<close>, first its parts and then the
  whole. Lines 92 to 94: the reordered copy of the days.
\<close>

definition reorderedItineraries :: "day list \<Rightarrow> int \<Rightarrow> int \<Rightarrow> day option list" where
  "reorderedItineraries itineraries sourceIndex destIndex =
     spliceMove (Array_from itineraries) sourceIndex destIndex"

text \<open>
  Lines 97 to 99: \<open>reorderedItineraries.map((item, index) => updateDoc(doc(db,
  'itineraries', item.id), {order: index}))\<close>. The callback runs on the elements in
  turn; reading \<open>item.id\<close> of \<open>undefined\<close> throws a TypeError, after the calls
  for the elements before it have been made. The result is the calls made and the
  error thrown, if any.
\<close>

fun orderUpdates :: "day option list \<Rightarrow> nat \<Rightarrow> docWrite list \<times> js_error option" where
  "orderUpdates [] i = ([], None)"
| "orderUpdates (None # rest) i = ([], Some TypeError)"
| "orderUpdates (Some item # rest) i =
     (let (ws, e) = orderUpdates rest (Suc i) in (UpdateOrder (day_id item) i # ws, e))"

text \<open>Lines 116 to 118: the reordered copy of one day's activities.\<close>

definition reorderedActivities :: "activity list \<Rightarrow> int \<Rightarrow> int \<Rightarrow> activity option list" where
  "reorderedActivities dayActivities sourceIndex destIndex =
     spliceMove (Array_from dayActivities) sourceIndex destIndex"

text \<open>\<open>day.activities || []\<close>\<close>

definition activitiesOrEmpty :: "day \<Rightarrow> activity list" where
  "activitiesOrEmpty d = (case activities d of None \<Rightarrow> [] | Some acts \<Rightarrow> acts)"

text \<open>
  Lines 134 to 138: the activity taken out of the source day's copy and put into the
  destination day's copy. The result is \<open>(sourceActivities, destActivities)\<close> after
  the two calls.
\<close>

definition moveBetweenDays ::
  "activity list \<Rightarrow> activity list \<Rightarrow> int \<Rightarrow> int \<Rightarrow> activity option list \<times> activity option list" where
  "moveBetweenDays sourceDayActivities destDayActivities sourceIndex destIndex =
     (let sourceActivities = Array_from sourceDayActivities;
          destActivities = Array_from destDayActivities;
          (removedList, sourceActivities1) = splice sourceActivities sourceIndex 1 [];
          movedActivity = firstElement removedList;
          (_, destActivities1) = splice destActivities destIndex 0 [movedActivity]
      in (sourceActivities1, destActivities1))"

text \<open>
  \<open>handleDragEnd\<close>, as a function of the component state \<open>itineraries\<close> and the drop
  result: the \<open>updateDoc\<close> calls it makes and the error it throws, if any. What the
  backing store answers to a call is not part of the handler.
\<close>

definition handleDragEnd :: "day list \<Rightarrow> dropResult \<Rightarrow> docWrite list \<times> js_error option" where
  "handleDragEnd itineraries result =
     (case destination result of
        None \<Rightarrow> ([], None)
      | Some dest \<Rightarrow>
          if dragType result = ''day'' then
            orderUpdates (reorderedItineraries itineraries (index (source result)) (index dest)) 0
          else if dragType result = ''activity'' then
            (let sourceDayId = droppableId (source result);
                 destDayId = droppableId dest
             in if sourceDayId = destDayId then
                  (case find (\<lambda>item. day_id item = sourceDayId) itineraries of
                     None \<Rightarrow> ([], None)
                   | Some d \<Rightarrow>
                       (case activities d of
                          None \<Rightarrow> ([], None)
                        | Some acts \<Rightarrow>
                            ([UpdateActivities sourceDayId
                                (reorderedActivities acts (index (source result)) (index dest))],
                             None)))
                else
                  (case find (\<lambda>item. day_id item = sourceDayId) itineraries of
                     None \<Rightarrow> ([], None)
                   | Some sourceDay \<Rightarrow>
                       (case find (\<lambda>item. day_id item = destDayId) itineraries of
                          None \<Rightarrow> ([], None)
                        | Some destDay \<Rightarrow>
                            (let (sourceActivities, destActivities) =
                                   moveBetweenDays (activitiesOrEmpty sourceDay)
                                     (activitiesOrEmpty destDay)
                                     (index (source result)) (index dest)
                             in ([UpdateActivities sourceDayId sourceActivities,
                                  UpdateActivities destDayId destActivities], None)))))
          else ([], None))"

text \<open>
  The effect of one \<open>updateDoc\<close> call on the collection \<open>itineraries\<close>, a map from
  document ids to documents: the named fields of the document are replaced; a call for
  a document that does not exist is rejected and changes nothing. An \<open>undefined\<close>
  among the activities is rejected by the store as well.
\<close>

definition definedItems :: "'a option list \<Rightarrow> 'a list option" where
  "definedItems ys = (if None \<in> set ys then None else Some (map the ys))"

fun applyWrite :: "(string \<rightharpoonup> day) \<Rightarrow> docWrite \<Rightarrow> (string \<rightharpoonup> day)" where
  "applyWrite store (UpdateOrder docId i) =
     (case store docId of
        None \<Rightarrow> store
      | Some d \<Rightarrow> store(docId \<mapsto> d\<lparr>order := i\<rparr>))"
| "applyWrite store (UpdateActivities docId acts) =
     (case store docId of
        None \<Rightarrow> store
      | Some d \<Rightarrow>
          (case definedItems acts of
             None \<Rightarrow> store
           | Some as \<Rightarrow> store(docId \<mapsto> d\<lparr>activities := Some as\<rparr>)))"

definition applyWrites :: "(string \<rightharpoonup> day) \<Rightarrow> docWrite list \<Rightarrow> (string \<rightharpoonup> day)" where
  "applyWrites store ws = foldl applyWrite store ws"

section \<open>Aggregate computations\<close>

text \<open>
  \<open>activity.cost || 0\<close>: a missing cost counts as 0, and so does a cost that is NaN
  or 0, the falsy numbers (\<open>Number\<close> leaves a number as it is).
\<close>

definition costOrZero :: "activity \<Rightarrow> jsnum" where
  "costOrZero a = (case cost a of None \<Rightarrow> Fin 0 | Some NaN \<Rightarrow> Fin 0 | Some c \<Rightarrow> c)"

text \<open>\<open>calculateTotalCost\<close> of \<open>helpers.js\<close>; \<open>reduce\<close> is a left fold.\<close>

definition calculateTotalCost :: "day list \<Rightarrow> jsnum" where
  "calculateTotalCost itineraries =
     foldl (\<lambda>total d.
              let dayCost = foldl (\<lambda>sum a. jadd sum (costOrZero a)) (Fin 0) (activitiesOrEmpty d)
              in jadd total dayCost)
           (Fin 0) itineraries"

text \<open>\<open>getTotalCost\<close> of the itinerary view page.\<close>

definition getTotalCost :: "day list \<Rightarrow> jsnum" where
  "getTotalCost itineraries =
     foldl (\<lambda>total d.
              jadd total
                (foldl (\<lambda>dayTotal a. jadd dayTotal (costOrZero a)) (Fin 0) (activitiesOrEmpty d)))
           (Fin 0) itineraries"

text \<open>\<open>isOverBudget\<close> of \<open>helpers.js\<close>.\<close>

definition isOverBudget :: "day \<Rightarrow> jsnum \<Rightarrow> bool" where
  "isOverBudget d dailyBudget =
     (let dayCost = foldl (\<lambda>sum a. jadd sum (costOrZero a)) (Fin 0) (activitiesOrEmpty d)
      in jgt dayCost dailyBudget)"

text \<open>
  \<open>getActivityCount\<close> of the itinerary view page; the length of an array is a number.
\<close>

definition getActivityCount :: "day list \<Rightarrow> jsnum" where
  "getActivityCount itineraries =
     foldl (\<lambda>total d. jadd total (Fin (real (length (activitiesOrEmpty d))))) (Fin 0) itineraries"

text \<open>
  \<open>activity.category || 'activity'\<close>: a missing category and the empty string are both
  falsy and give the default label.
\<close>

definition categoryOrDefault :: "activity \<Rightarrow> string" where
  "categoryOrDefault a =
     (case category a of
        None \<Rightarrow> ''activity''
      | Some c \<Rightarrow> if c = [] then ''activity'' else c)"

text \<open>
  The object \<open>categories\<close> of \<open>getCategoryBreakdown\<close> is a plain object: besides its
  own properties, a map from names to values, it inherits the properties of
  \<open>Object.prototype\<close>. Eleven of these are functions; \<open>__proto__\<close> is an accessor,
  whose getter gives the prototype object and whose setter ignores a value that is not
  an object.
\<close>

definition objectPrototypeFunctions :: "string list" where
  "objectPrototypeFunctions =
     [''constructor'', ''__defineGetter__'', ''__defineSetter__'', ''hasOwnProperty'',
      ''__lookupGetter__'', ''__lookupSetter__'', ''isPrototypeOf'', ''propertyIsEnumerable'',
      ''toString'', ''valueOf'', ''toLocaleString'']"

definition objectPrototypeNames :: "string list" where
  "objectPrototypeNames = ''__proto__'' # objectPrototypeFunctions"

text \<open>
  The string that the value of an inherited property becomes when 1 is added to it:
  for a function the text that the engine prints for a built-in function of that name,
  which the language leaves to the engine and which is a parameter here, and for the
  prototype object \<open>[object Object]\<close>. \<open>None\<close> when no property of that name is
  inherited. The function \<open>constructor\<close> is \<open>Object\<close>.
\<close>

definition inheritedText :: "(string \<Rightarrow> string) \<Rightarrow> string \<Rightarrow> string option" where
  "inheritedText nativeText c =
     (if c = ''__proto__'' then Some ''[object Object]''
      else if c \<in> set objectPrototypeFunctions then
        Some (nativeText (if c = ''constructor'' then ''Object'' else c))
      else None)"

text \<open>
  \<open>categories[category] = (categories[category] || 0) + 1\<close>. The value read is the
  own property if there is one, else the inherited one, else \<open>undefined\<close>. What
  is falsy (\<open>undefined\<close>, 0, NaN, the empty string) gives way to 0. Adding 1 to a number
  is an addition of numbers; adding 1 to a string, a function or an object appends
  \<open>1\<close> to its text. The assignment makes or changes the own property, except for
  \<open>__proto__\<close>, where the setter is called with a number or a string and does nothing.
\<close>

definition countCategory ::
  "(string \<Rightarrow> string) \<Rightarrow> (string \<rightharpoonup> jsval) \<Rightarrow> activity \<Rightarrow> (string \<rightharpoonup> jsval)" where
  "countCategory nativeText categories a =
     (let category = categoryOrDefault a;
          newValue =
            (case categories category of
               Some (NumV n) \<Rightarrow>
                 if n = NaN \<or> n = Fin 0 then NumV (jadd (Fin 0) (Fin 1))
                 else NumV (jadd n (Fin 1))
             | Some (StrV s) \<Rightarrow>
                 if s = [] then NumV (jadd (Fin 0) (Fin 1)) else StrV (s @ ''1'')
             | None \<Rightarrow>
                 (case inheritedText nativeText category of
                    None \<Rightarrow> NumV (jadd (Fin 0) (Fin 1))
                  | Some t \<Rightarrow> StrV (t @ ''1'')))
      in if category = ''__proto__'' then categories else categories(category \<mapsto> newValue))"

text \<open>
  \<open>getCategoryBreakdown\<close> of the itinerary view page: the own properties of
  \<open>categories\<close> after the two nested \<open>forEach\<close> loops.
\<close>

definition getCategoryBreakdown :: "(string \<Rightarrow> string) \<Rightarrow> day list \<Rightarrow> (string \<rightharpoonup> jsval)" where
  "getCategoryBreakdown nativeText itineraries =
     foldl (\<lambda>categories d. foldl (countCategory nativeText) categories (activitiesOrEmpty d))
           Map.empty itineraries"

text \<open>
  \<open>getBudgetStatus\<close> of the budget page, as a function of the component state it
  reads.
\<close>

record budgetStatus =
  status :: string
  color :: string
  bgColor :: string

definition getBudgetStatus :: "jsnum \<Rightarrow> day list \<Rightarrow> budgetStatus" where
  "getBudgetStatus budget itineraries =
     (let totalCost = calculateTotalCost itineraries;
          remaining = jsub budget totalCost;
          percentage = (if jgt budget (Fin 0) then jmul (jdiv totalCost budget) (Fin 100) else Fin 0)
      in if jge percentage (Fin 100) then
           \<lparr>status = ''over'', color = ''text-red-600'', bgColor = ''bg-red-100''\<rparr>
         else if jge percentage (Fin 80) then
           \<lparr>status = ''warning'', color = ''text-yellow-600'', bgColor = ''bg-yellow-100''\<rparr>
         else
           \<lparr>status = ''good'', color = ''text-green-600'', bgColor = ''bg-green-100''\<rparr>)"

text \<open>
  The amount that \<open>getBudgetStatus\<close> and \<open>getBudgetAlerts\<close> compute as their local
  \<open>remaining\<close> and that the page displays as the remaining amount.
\<close>

definition remaining :: "jsnum \<Rightarrow> day list \<Rightarrow> jsnum" where
  "remaining budget itineraries = jsub budget (calculateTotalCost itineraries)"

section \<open>Reference operations of the specification\<close>

text \<open>
  The list without its element at position \<open>k\<close>, and the list with \<open>x\<close> put in at
  position \<open>k\<close>: what the specification means by removing and inserting at an index.
\<close>

definition removeAt :: "nat \<Rightarrow> 'a list \<Rightarrow> 'a list" where
  "removeAt k xs = take k xs @ drop (Suc k) xs"

definition insertAt :: "nat \<Rightarrow> 'a \<Rightarrow> 'a list \<Rightarrow> 'a list" where
  "insertAt k x xs = take k xs @ x # drop k xs"

text \<open>
  The budget status as the specification words it, on exact amounts: over when spent is
  at least the budget, warning when spent is at least 80 percent of it, good otherwise.
\<close>

definition specBudgetStatus :: "real \<Rightarrow> real \<Rightarrow> string" where
  "specBudgetStatus budget spent =
     (if spent \<ge> budget then ''over''
      else if spent \<ge> 0.8 * budget then ''warning''
      else ''good'')"

text \<open>
  The activities of a day and the cost of an activity as the specification words them,
  read from the fields: a missing activity list is empty, a missing cost is 0.
\<close>

definition specActivities :: "day \<Rightarrow> activity list" where
  "specActivities d = (case activities d of None \<Rightarrow> [] | Some acts \<Rightarrow> acts)"

definition specCost :: "activity \<Rightarrow> real" where
  "specCost a = (case cost a of Some (Fin x) \<Rightarrow> x | _ \<Rightarrow> 0)"

text \<open>
  The cost of a day and the total cost as sums of exact amounts.
\<close>

definition specDayCost :: "day \<Rightarrow> real" where
  "specDayCost d = (\<Sum>a\<leftarrow>specActivities d. specCost a)"

definition specTotalCost :: "day list \<Rightarrow> real" where
  "specTotalCost ds = (\<Sum>d\<leftarrow>ds. specDayCost d)"

text \<open>
  The same sums taken in double arithmetic: the terms are added one after the other,
  starting from 0, and every addition rounds. A cost that is missing or NaN is 0.
\<close>

fun addInSequence :: "jsnum \<Rightarrow> jsnum list \<Rightarrow> jsnum" where
  "addInSequence s [] = s"
| "addInSequence s (x # xs) = addInSequence (jadd s x) xs"

definition specCostNumber :: "activity \<Rightarrow> jsnum" where
  "specCostNumber a = (case cost a of None \<Rightarrow> Fin 0 | Some NaN \<Rightarrow> Fin 0 | Some c \<Rightarrow> c)"

definition specRoundedDayCost :: "day \<Rightarrow> jsnum" where
  "specRoundedDayCost d = addInSequence (Fin 0) (map specCostNumber (specActivities d))"

definition specRoundedTotalCost :: "day list \<Rightarrow> jsnum" where
  "specRoundedTotalCost ds = addInSequence (Fin 0) (map specRoundedDayCost ds)"

text \<open>
  Costs on which no addition rounds: every cost is missing or a whole number, and the
  absolute values of the costs add up to at most 2 to the power 53.
\<close>

definition wholeNumber :: "real \<Rightarrow> bool" where
  "wholeNumber x = (of_int \<lfloor>x\<rfloor> = x)"

definition wholeNumberCost :: "activity \<Rightarrow> bool" where
  "wholeNumberCost a =
     (case cost a of None \<Rightarrow> True | Some (Fin x) \<Rightarrow> wholeNumber x | Some _ \<Rightarrow> False)"

definition wholeNumberCosts :: "day list \<Rightarrow> bool" where
  "wholeNumberCosts ds =
     ((\<forall>d \<in> set ds. \<forall>a \<in> set (specActivities d). wholeNumberCost a) \<and>
      (\<Sum>d\<leftarrow>ds. \<Sum>a\<leftarrow>specActivities d. \<bar>specCost a\<bar>) \<le> 2 ^ 53)"

text \<open>
  The category label of an activity as the specification words it, an activity whose
  category is missing or empty having no category; the number of activities that count
  under a label; and the number of activities.
\<close>

definition specLabel :: "activity \<Rightarrow> string" where
  "specLabel a =
     (case category a of None \<Rightarrow> ''activity'' | Some c \<Rightarrow> if c = [] then ''activity'' else c)"

definition specCategoryCount :: "day list \<Rightarrow> string \<Rightarrow> nat" where
  "specCategoryCount ds c = (\<Sum>d\<leftarrow>ds. length (filter (\<lambda>a. specLabel a = c) (specActivities d)))"

definition specActivityCount :: "day list \<Rightarrow> nat" where
  "specActivityCount ds = (\<Sum>d\<leftarrow>ds. length (specActivities d))"

text \<open>
  Days whose category labels are all ordinary: none is the name of a property of
  \<open>Object.prototype\<close>.
\<close>

definition ordinaryLabels :: "day list \<Rightarrow> bool" where
  "ordinaryLabels ds =
     (\<forall>d \<in> set ds. \<forall>a \<in> set (specActivities d). specLabel a \<notin> set objectPrototypeNames)"

section \<open>Example data\<close>

text \<open>
  The days and activities of the concrete scenarios: three days titled D1, D2 and D3
  with orders 0, 1 and 2, and activities X, Y, Z, P and Q.
\<close>

definition exampleActivity :: "string \<Rightarrow> jsnum option \<Rightarrow> string option \<Rightarrow> activity" where
  "exampleActivity n c k =
     \<lparr>activity_id = n, name = n, description = [], location = [], startTime = ''10:00'',
      endTime = [], cost = c, category = k\<rparr>"

definition exampleDay :: "string \<Rightarrow> activity list option \<Rightarrow> nat \<Rightarrow> day" where
  "exampleDay t acts k =
     \<lparr>day_id = t, tripId = ''trip'', date = ''2024-01-01'', title = t, day_description = [],
      activities = acts, order = k, createdAt = ''2024-01-01T00:00:00.000Z''\<rparr>"

definition actX :: activity where "actX = exampleActivity ''X'' (Some (Fin 10)) (Some ''food'')"
definition actY :: activity where "actY = exampleActivity ''Y'' (Some (Fin 25)) (Some ''activity'')"
definition actZ :: activity where "actZ = exampleActivity ''Z'' None None"
definition actP :: activity where "actP = exampleActivity ''P'' (Some (Fin 5)) (Some ''transport'')"
definition actQ :: activity where "actQ = exampleActivity ''Q'' None (Some [])"

definition dayD1 :: day where "dayD1 = exampleDay ''D1'' (Some [actX, actY, actZ]) 0"
definition dayD2 :: day where "dayD2 = exampleDay ''D2'' (Some [actP, actQ]) 1"
definition dayD3 :: day where "dayD3 = exampleDay ''D3'' None 2"

text \<open>Drop results for a day and for an activity, and a store that holds the three days.\<close>

definition exampleDayDrop :: "int \<Rightarrow> int \<Rightarrow> dropResult" where
  "exampleDayDrop s d =
     \<lparr>source = \<lparr>droppableId = ''days'', index = s\<rparr>,
      destination = Some \<lparr>droppableId = ''days'', index = d\<rparr>, dragType = ''day''\<rparr>"

definition exampleActivityDrop :: "string \<Rightarrow> int \<Rightarrow> string \<Rightarrow> int \<Rightarrow> dropResult" where
  "exampleActivityDrop a s b d =
     \<lparr>source = \<lparr>droppableId = a, index = s\<rparr>,
      destination = Some \<lparr>droppableId = b, index = d\<rparr>, dragType = ''activity''\<rparr>"

definition exampleStore :: "string \<rightharpoonup> day" where
  "exampleStore = [''D1'' \<mapsto> dayD1, ''D2'' \<mapsto> dayD2, ''D3'' \<mapsto> dayD3]"

text \<open>
  A day with the costs 89.1, 70.7 and 60.3, each the double nearest to the decimal, and
  the same costs in another order; a day whose one cost is the double just below 0.8; a
  day with the costs 2 to the power 53 and 1; a day with an activity of category
  \<open>__proto__\<close> and one with an activity of category \<open>constructor\<close>; and the text
  that V8 prints for a built-in function.
\<close>

definition dayDecimals :: day where
  "dayDecimals =
     exampleDay ''R1''
       (Some [exampleActivity ''A'' (Some (Fin (3134927553114931 / 35184372088832))) None,
              exampleActivity ''B'' (Some (Fin (4975070213360845 / 70368744177664))) None,
              exampleActivity ''C'' (Some (Fin (4243235273913139 / 70368744177664))) None]) 0"

definition dayDecimalsReordered :: day where
  "dayDecimalsReordered =
     exampleDay ''R2''
       (Some [exampleActivity ''A'' (Some (Fin (3134927553114931 / 35184372088832))) None,
              exampleActivity ''C'' (Some (Fin (4243235273913139 / 70368744177664))) None,
              exampleActivity ''B'' (Some (Fin (4975070213360845 / 70368744177664))) None]) 0"

definition dayBelowEighty :: day where
  "dayBelowEighty =
     exampleDay ''R3''
       (Some [exampleActivity ''A'' (Some (Fin (7205759403792793 / 9007199254740992))) None]) 0"

definition dayLarge :: day where
  "dayLarge =
     exampleDay ''R4''
       (Some [exampleActivity ''A'' (Some (Fin 9007199254740992)) None,
              exampleActivity ''B'' (Some (Fin 1)) None]) 0"

definition dayProto :: day where
  "dayProto = exampleDay ''P1'' (Some [exampleActivity ''A'' None (Some ''__proto__'')]) 0"

definition dayConstructor :: day where
  "dayConstructor = exampleDay ''P2'' (Some [exampleActivity ''A'' None (Some ''constructor'')]) 0"

definition v8NativeText :: "string \<Rightarrow> string" where
  "v8NativeText f = ''function '' @ f @ ''() { [native code] }''"

section \<open>What \<open>splice\<close> does at indices in range\<close>

lemma splice_remove_valid:
  assumes "0 \<le> s" "s < int (length xs)"
  shows "splice xs s 1 [] = ([xs ! nat s], take (nat s) xs @ drop (Suc (nat s)) xs)"
proof -
  have k: "actualStart (length xs) s = nat s"
    using assms by (simp add: actualStart_def min_def)
  have dc: "nat (min (max 1 0) (int (length xs) - int (nat s))) = 1"
    using assms by (simp add: min_def)
  have "take 1 (drop (nat s) xs) = [xs ! nat s]"
    using assms by (simp add: take_Suc_conv_app_nth Cons_nth_drop_Suc[symmetric])
  then show ?thesis
    using k dc by (simp add: splice_def Let_def)
qed

lemma splice_insert_valid:
  assumes "0 \<le> d" "d \<le> int (length xs)"
  shows "splice xs d 0 [x] = ([], take (nat d) xs @ x # drop (nat d) xs)"
  using assms by (simp add: splice_def actualStart_def Let_def min_def)

lemma spliceMove_valid:
  assumes "0 \<le> s" "s < int (length xs)" "0 \<le> d" "d < int (length xs)"
  shows "spliceMove xs s d =
           take (nat d) (take (nat s) xs @ drop (Suc (nat s)) xs) @ xs ! nat s #
           drop (nat d) (take (nat s) xs @ drop (Suc (nat s)) xs)"
proof -
  let ?rm = "take (nat s) xs @ drop (Suc (nat s)) xs"
  have len: "int (length ?rm) = int (length xs) - 1"
    using assms by (simp add: min_def) 
  have "d \<le> int (length ?rm)" using assms len by linarith
  then have "splice ?rm d 0 [xs ! nat s] = ([], take (nat d) ?rm @ xs ! nat s # drop (nat d) ?rm)"
    using assms(3) by (rule splice_insert_valid[rotated])
  then show ?thesis
    using splice_remove_valid[OF assms(1,2)]
    by (simp add: spliceMove_def firstElement_def)
qed

lemma mset_insert_at: "mset (take k ys @ x # drop k ys) = add_mset x (mset ys)"
proof -
  have "mset (take k ys) + mset (drop k ys) = mset ys"
    by (simp only: mset_append[symmetric] append_take_drop_id)
  then show ?thesis by simp
qed

lemma mset_remove_at:
  assumes "k < length xs"
  shows "add_mset (xs ! k) (mset (take k xs @ drop (Suc k) xs)) = mset xs"
proof -
  have "mset xs = mset (take k xs @ xs ! k # drop (Suc k) xs)"
    using assms by (simp only: id_take_nth_drop[symmetric])
  then show ?thesis by simp
qed

lemma mset_spliceMove:
  assumes "0 \<le> s" "s < int (length xs)" "0 \<le> d" "d < int (length xs)"
  shows "mset (spliceMove xs s d) = mset xs"
proof -
  have ns: "nat s < length xs" using assms by linarith
  show ?thesis
    unfolding spliceMove_valid[OF assms] mset_insert_at
    using mset_remove_at[OF ns] .
qed

lemma spliceMove_same:
  assumes "0 \<le> i" "i < int (length xs)"
  shows "spliceMove xs i i = xs"
proof -
  have n: "nat i < length xs" using assms by linarith
  have "spliceMove xs i i = take (nat i) xs @ xs ! nat i # drop (Suc (nat i)) xs"
    unfolding spliceMove_valid[OF assms assms] using n by (simp add: min_def)
  then show ?thesis using n by (simp add: id_take_nth_drop[symmetric])
qed

lemma length_spliceMove:
  assumes "0 \<le> s" "s < int (length xs)" "0 \<le> d" "d < int (length xs)"
  shows "length (spliceMove xs s d) = length xs"
  using mset_spliceMove[OF assms] by (metis size_mset)

lemma spliceMove_round_trip:
  assumes "0 \<le> s" "s < int (length xs)" "0 \<le> d" "d < int (length xs)"
  shows "spliceMove (spliceMove xs s d) d s = xs"
proof -
  define rm where "rm = take (nat s) xs @ drop (Suc (nat s)) xs"
  define ys where "ys = take (nat d) rm @ xs ! nat s # drop (nat d) rm"
  have ys: "spliceMove xs s d = ys"
    unfolding ys_def rm_def by (rule spliceMove_valid[OF assms])
  have ns: "nat s < length xs" and nd: "nat d < length xs" using assms by linarith+
  have lrm: "length rm = length xs - 1" unfolding rm_def using ns by (simp add: min_def)
  have ld: "nat d \<le> length rm" using nd lrm by linarith
  have ls: "nat s \<le> length rm" using ns lrm by linarith
  have lys: "length ys = length xs" using ys length_spliceMove[OF assms] by simp
  have tk: "take (nat d) ys = take (nat d) rm" unfolding ys_def using ld by simp
  have dr: "drop (Suc (nat d)) ys = drop (nat d) rm" unfolding ys_def using ld by simp
  have nth: "ys ! nat d = xs ! nat s" unfolding ys_def using ld by (simp add: nth_append)
  have restored: "take (nat d) ys @ drop (Suc (nat d)) ys = rm"
    unfolding tk dr by simp
  have tks: "take (nat s) rm = take (nat s) xs" unfolding rm_def using ns by simp
  have drs: "drop (nat s) rm = drop (Suc (nat s)) xs" unfolding rm_def using ns by simp
  have "spliceMove ys d s =
          take (nat s) (take (nat d) ys @ drop (Suc (nat d)) ys) @ ys ! nat d #
          drop (nat s) (take (nat d) ys @ drop (Suc (nat d)) ys)"
    using assms lys by (intro spliceMove_valid) simp_all
  also have "\<dots> = take (nat s) rm @ xs ! nat s # drop (nat s) rm"
    unfolding restored nth ..
  also have "\<dots> = take (nat s) xs @ xs ! nat s # drop (Suc (nat s)) xs"
    unfolding tks drs ..
  also have "\<dots> = xs" using ns by (simp only: id_take_nth_drop[symmetric])
  finally show ?thesis unfolding ys .
qed

lemma length_removeAt: "k < length xs \<Longrightarrow> length (removeAt k xs) = length xs - 1"
  by (simp add: removeAt_def min_def)

lemma length_insertAt: "length (insertAt k x xs) = Suc (length xs)"
  by (simp add: insertAt_def min_def)

lemma spliceMove_map:
  assumes "0 \<le> s" "s < int (length xs)" "0 \<le> d" "d < int (length xs)"
  shows "spliceMove (map f xs) s d = map f (insertAt (nat d) (xs ! nat s) (removeAt (nat s) xs))"
proof -
  define rm where "rm = removeAt (nat s) xs"
  have ns: "nat s < length xs" using assms by linarith
  have rm: "take (nat s) (map f xs) @ drop (Suc (nat s)) (map f xs) = map f rm"
    unfolding rm_def removeAt_def by (simp add: take_map drop_map)
  have "spliceMove (map f xs) s d =
          take (nat d) (take (nat s) (map f xs) @ drop (Suc (nat s)) (map f xs)) @
          map f xs ! nat s #
          drop (nat d) (take (nat s) (map f xs) @ drop (Suc (nat s)) (map f xs))"
    using assms by (intro spliceMove_valid) simp_all
  also have "\<dots> = take (nat d) (map f rm) @ f (xs ! nat s) # drop (nat d) (map f rm)"
    unfolding rm using ns by simp
  also have "\<dots> = map f (insertAt (nat d) (xs ! nat s) rm)"
    unfolding insertAt_def by (simp add: take_map drop_map)
  finally show ?thesis unfolding rm_def .
qed

lemma mset_insertAt_removeAt:
  assumes "k < length xs"
  shows "mset (insertAt j (xs ! k) (removeAt k xs)) = mset xs"
  unfolding insertAt_def removeAt_def mset_insert_at using mset_remove_at[OF assms] .

section \<open>What \<open>splice\<close> does at any destination index\<close>

lemma splice_insert_any:
  "splice xs d 0 [x] = ([], insertAt (actualStart (length xs) d) x xs)"
proof -
  have "actualStart (length xs) d \<le> length xs"
    unfolding actualStart_def by (cases "d < 0") simp_all
  then have "nat (min (max 0 0) (int (length xs) - int (actualStart (length xs) d))) = 0"
    by simp
  then show ?thesis
    by (simp add: splice_def Let_def insertAt_def)
qed

lemma actualStart_beyond: "int n \<le> d \<Longrightarrow> actualStart n d = n"
  by (simp add: actualStart_def)

lemma spliceMove_any_dest:
  assumes "0 \<le> s" "s < int (length xs)"
  shows "spliceMove (map f xs) s d =
           map f (insertAt (actualStart (length xs - 1) d) (xs ! nat s) (removeAt (nat s) xs))"
proof -
  define rm where "rm = removeAt (nat s) xs"
  have ns: "nat s < length xs" using assms by linarith
  have lrm: "length rm = length xs - 1" unfolding rm_def using ns by (rule length_removeAt)
  have rm: "splice (map f xs) s 1 [] = ([f (xs ! nat s)], map f rm)"
    using splice_remove_valid[of s "map f xs"] assms ns
    by (simp add: rm_def removeAt_def take_map drop_map)
  have "spliceMove (map f xs) s d = insertAt (actualStart (length (map f rm)) d) (f (xs ! nat s)) (map f rm)"
    by (simp add: spliceMove_def rm splice_insert_any firstElement_def)
  also have "\<dots> = map f (insertAt (actualStart (length xs - 1) d) (xs ! nat s) rm)"
    by (simp add: insertAt_def lrm take_map drop_map)
  finally show ?thesis unfolding rm_def .
qed

lemma orderUpdates_defined:
  "orderUpdates (map Some ys) i =
     (map (\<lambda>(x, k). UpdateOrder (day_id x) k) (zip ys [i..<i + length ys]), None)"
proof (induction ys arbitrary: i)
  case Nil
  then show ?case by simp
next
  case (Cons y ys)
  have "[i..<i + length (y # ys)] = i # [Suc i..<Suc i + length ys]"
    by (simp add: upt_conv_Cons del: upt_Suc)
  then show ?case using Cons.IH[of "Suc i"] by simp
qed

lemma applyWrites_untouched:
  assumes "docId \<notin> day_id ` fst ` set ps"
  shows "foldl applyWrite store (map (\<lambda>(x, k). UpdateOrder (day_id x) k) ps) docId = store docId"
  using assms
proof (induction ps arbitrary: store)
  case Nil
  then show ?case by simp
next
  case (Cons p ps)
  obtain x k where p: "p = (x, k)" by (cases p)
  have ne: "day_id x \<noteq> docId" using Cons.prems p by auto
  have "applyWrite store (UpdateOrder (day_id x) k) docId = store docId"
    using ne by (simp split: option.splits)
  moreover have "docId \<notin> day_id ` fst ` set ps" using Cons.prems by auto
  ultimately show ?case using Cons.IH p by simp
qed

lemma applyWrites_order:
  assumes "distinct (map day_id ys)" "j < length ys" "store (day_id (ys ! j)) = Some cur"
  shows "foldl applyWrite store
           (map (\<lambda>(x, k). UpdateOrder (day_id x) k) (zip ys [i..<i + length ys]))
           (day_id (ys ! j)) = Some (cur\<lparr>order := i + j\<rparr>)"
  using assms
proof (induction ys arbitrary: i j store)
  case Nil
  then show ?case by simp
next
  case (Cons y ys)
  have upt: "[i..<i + length (y # ys)] = i # [Suc i..<Suc i + length ys]"
    by (simp add: upt_conv_Cons del: upt_Suc)
  define store1 where "store1 = applyWrite store (UpdateOrder (day_id y) i)"
  have step: "foldl applyWrite store
           (map (\<lambda>(x, k). UpdateOrder (day_id x) k) (zip (y # ys) [i..<i + length (y # ys)])) =
         foldl applyWrite store1
           (map (\<lambda>(x, k). UpdateOrder (day_id x) k) (zip ys [Suc i..<Suc i + length ys]))"
    unfolding upt store1_def by simp
  show ?case
  proof (cases j)
    case 0
    have "day_id y \<notin> day_id ` fst ` set (zip ys [Suc i..<Suc i + length ys])"
      using Cons.prems(1) by (auto dest!: set_zip_leftD)
    then have "foldl applyWrite store1
           (map (\<lambda>(x, k). UpdateOrder (day_id x) k) (zip ys [Suc i..<Suc i + length ys]))
           (day_id y) = store1 (day_id y)"
      by (rule applyWrites_untouched)
    moreover have "store1 (day_id y) = Some (cur\<lparr>order := i\<rparr>)"
      using Cons.prems(3) 0 by (simp add: store1_def)
    ultimately show ?thesis using 0 step by simp
  next
    case (Suc j')
    have j': "j' < length ys" using Cons.prems(2) Suc by simp
    have "ys ! j' \<in> set ys" using j' by simp
    then have "day_id (ys ! j') \<in> day_id ` set ys" by (rule imageI)
    then have ne: "day_id (ys ! j') \<noteq> day_id y" using Cons.prems(1) by auto
    have "store1 (day_id (ys ! j')) = Some cur"
      using Cons.prems(3) Suc ne by (simp add: store1_def split: option.splits)
    then have "foldl applyWrite store1
           (map (\<lambda>(x, k). UpdateOrder (day_id x) k) (zip ys [Suc i..<Suc i + length ys]))
           (day_id (ys ! j')) = Some (cur\<lparr>order := Suc i + j'\<rparr>)"
      using Cons.IH[of j' store1 "Suc i"] Cons.prems(1) j' by simp
    then show ?thesis using Suc step by simp
  qed
qed

lemma zip_upt_map: "map (\<lambda>(x, k). g x k) (zip ys [0..<length ys]) = map (\<lambda>k. g (ys ! k) k) [0..<length ys]"
  by (rule nth_equalityI) simp_all

lemma reorderedItineraries_valid_source:
  assumes "0 \<le> s" "s < int (length days)"
  shows "reorderedItineraries days s d =
           Array_from (insertAt (actualStart (length days - 1) d) (days ! nat s)
                         (removeAt (nat s) days))"
  unfolding reorderedItineraries_def Array_from_def by (rule spliceMove_any_dest[OF assms])

lemma insertAt_end: "insertAt (length xs) x xs = xs @ [x]"
  by (simp add: insertAt_def)

lemma spliceMove_dest_beyond:
  assumes "0 \<le> s" "s < int (length xs)" "int (length xs) \<le> d"
  shows "spliceMove (map f xs) s d = map f (removeAt (nat s) xs @ [xs ! nat s])"
proof -
  have ns: "nat s < length xs" using assms by linarith
  have "int (length xs - 1) \<le> d" using assms by linarith
  then have "actualStart (length xs - 1) d = length xs - 1"
    by (rule actualStart_beyond)
  then have k: "actualStart (length xs - 1) d = length (removeAt (nat s) xs)"
    using ns by (simp only: length_removeAt)
  show ?thesis
    unfolding spliceMove_any_dest[OF assms(1,2)] k insertAt_end ..
qed

lemma handleDragEnd_day:
  assumes "destination result = Some dest" "dragType result = ''day''"
  shows "handleDragEnd itineraries result =
           orderUpdates (reorderedItineraries itineraries (index (source result)) (index dest)) 0"
  using assms by (simp add: handleDragEnd_def)

lemma handleDragEnd_no_error:
  assumes "dragType result \<noteq> ''day''"
  shows "snd (handleDragEnd itineraries result) = None"
  using assms
  by (simp add: handleDragEnd_def Let_def split: option.splits prod.splits)

lemmas example_defs =
  exampleDayDrop_def exampleActivityDrop_def exampleStore_def dayD1_def dayD2_def dayD3_def
  exampleDay_def exampleActivity_def actX_def actY_def actZ_def actP_def actQ_def

section \<open>Reordering days\<close>

text \<open>
  Claim C1. For every list of days and all indices \<open>sourceIndex\<close> and \<open>destIndex\<close>
  from 0 up to, not including, the length, the reordered copy of the days holds exactly
  the days of the input, each as often as the input does: none is made up, doubled or
  lost, and no \<open>undefined\<close> comes in.
\<close>

theorem moveDay_preserves_multiset:
  assumes "0 \<le> sourceIndex" "sourceIndex < int (length days)"
    and "0 \<le> destIndex" "destIndex < int (length days)"
  shows "mset (reorderedItineraries days sourceIndex destIndex) = image_mset Some (mset days)"
proof -
  have "mset (reorderedItineraries days sourceIndex destIndex) = mset (map Some days)"
    unfolding reorderedItineraries_def Array_from_def
    using assms by (intro mset_spliceMove) simp_all
  then show ?thesis by simp
qed

theorem moveDay_preserves_multiset_witness:
  "(0::int) \<le> 2 \<and> 2 < int (length [dayD1, dayD2, dayD3]) \<and>
   (0::int) \<le> 0 \<and> 0 < int (length [dayD1, dayD2, dayD3]) \<and>
   mset (reorderedItineraries [dayD1, dayD2, dayD3] 2 0) =
     image_mset Some (mset [dayD1, dayD2, dayD3])"
proof -
  have h: "(0::int) \<le> 2" "2 < int (length [dayD1, dayD2, dayD3])"
    "(0::int) \<le> 0" "0 < int (length [dayD1, dayD2, dayD3])"
    by simp_all
  from moveDay_preserves_multiset[OF h] h show ?thesis by blast
qed

text \<open>
  Claim C4. A move from an index in range to the same index changes nothing: the
  reordered copy of the days is the input sequence, and so is the reordered copy of a
  day's activities.
\<close>

theorem same_index_is_identity:
  "(0 \<le> i \<and> i < int (length days) \<longrightarrow> reorderedItineraries days i i = Array_from days) \<and>
   (0 \<le> j \<and> j < int (length dayActivities) \<longrightarrow>
      reorderedActivities dayActivities j j = Array_from dayActivities)"
  unfolding reorderedItineraries_def reorderedActivities_def Array_from_def
  by (simp add: spliceMove_same)

theorem same_index_is_identity_witness:
  "reorderedItineraries [dayD1, dayD2, dayD3] 1 1 = Array_from [dayD1, dayD2, dayD3] \<and>
   reorderedActivities [actX, actY, actZ] 2 2 = Array_from [actX, actY, actZ]"
  using same_index_is_identity[of 1 "[dayD1, dayD2, dayD3]" 2 "[actX, actY, actZ]"]
  by simp

text \<open>
  Claim C5. Moving a day from \<open>sourceIndex\<close> to \<open>destIndex\<close> and then, in the
  sequence that results, from \<open>destIndex\<close> back to \<open>sourceIndex\<close> gives the
  original sequence, element by element.
\<close>

theorem moveDay_round_trip:
  assumes "0 \<le> sourceIndex" "sourceIndex < int (length days)"
    and "0 \<le> destIndex" "destIndex < int (length days)"
  shows "\<exists>moved. reorderedItineraries days sourceIndex destIndex = Array_from moved \<and>
                 reorderedItineraries moved destIndex sourceIndex = Array_from days"
proof -
  define moved where
    "moved = insertAt (nat destIndex) (days ! nat sourceIndex) (removeAt (nat sourceIndex) days)"
  have fwd: "reorderedItineraries days sourceIndex destIndex = Array_from moved"
    unfolding reorderedItineraries_def Array_from_def moved_def
    by (rule spliceMove_map[OF assms])
  have "spliceMove (spliceMove (map Some days) sourceIndex destIndex) destIndex sourceIndex
          = map Some days"
    using assms by (intro spliceMove_round_trip) simp_all
  then have "reorderedItineraries moved destIndex sourceIndex = Array_from days"
    using fwd unfolding reorderedItineraries_def Array_from_def by simp
  with fwd show ?thesis by blast
qed

theorem moveDay_round_trip_witness:
  "(0::int) \<le> 0 \<and> 0 < int (length [dayD1, dayD2, dayD3]) \<and>
   (0::int) \<le> 2 \<and> 2 < int (length [dayD1, dayD2, dayD3]) \<and>
   (\<exists>moved. reorderedItineraries [dayD1, dayD2, dayD3] 0 2 = Array_from moved \<and>
            reorderedItineraries moved 2 0 = Array_from [dayD1, dayD2, dayD3])"
proof -
  have h: "(0::int) \<le> 0" "0 < int (length [dayD1, dayD2, dayD3])"
    "(0::int) \<le> 2" "2 < int (length [dayD1, dayD2, dayD3])"
    by simp_all
  from moveDay_round_trip[OF h] h show ?thesis by blast
qed

section \<open>Moving an activity to another day\<close>

text \<open>
  Claim C3. With \<open>sourceIndex\<close> an index of the source day's list and \<open>destIndex\<close>
  a position of the destination day's list (its length included, for a drop at the
  end), the move between days leaves the source list without its element at
  \<open>sourceIndex\<close> and the destination list with that very element put in at
  \<open>destIndex\<close>; every other element stays, in the order it had, and the two lists
  together have as many elements as before.
\<close>

theorem cross_day_move:
  assumes "0 \<le> sourceIndex" "sourceIndex < int (length sourceDayActivities)"
    and "0 \<le> destIndex" "destIndex \<le> int (length destDayActivities)"
  shows "moveBetweenDays sourceDayActivities destDayActivities sourceIndex destIndex =
           (Array_from (removeAt (nat sourceIndex) sourceDayActivities),
            Array_from (insertAt (nat destIndex) (sourceDayActivities ! nat sourceIndex)
                          destDayActivities)) \<and>
         length (fst (moveBetweenDays sourceDayActivities destDayActivities sourceIndex destIndex)) +
         length (snd (moveBetweenDays sourceDayActivities destDayActivities sourceIndex destIndex)) =
           length sourceDayActivities + length destDayActivities"
proof -
  have ns: "nat sourceIndex < length sourceDayActivities" using assms by linarith
  have nd: "nat destIndex \<le> length destDayActivities" using assms by linarith
  have rm: "splice (map Some sourceDayActivities) sourceIndex 1 [] =
              ([Some (sourceDayActivities ! nat sourceIndex)],
               map Some (removeAt (nat sourceIndex) sourceDayActivities))"
    using splice_remove_valid[of sourceIndex "map Some sourceDayActivities"] assms(1,2) ns
    by (simp add: removeAt_def take_map drop_map)
  have ins: "splice (map Some destDayActivities) destIndex 0 [Some x] =
               ([], map Some (insertAt (nat destIndex) x destDayActivities))" for x
    using splice_insert_valid[of destIndex "map Some destDayActivities" "Some x"] assms(3,4)
    by (simp add: insertAt_def take_map drop_map)
  have eq: "moveBetweenDays sourceDayActivities destDayActivities sourceIndex destIndex =
           (Array_from (removeAt (nat sourceIndex) sourceDayActivities),
            Array_from (insertAt (nat destIndex) (sourceDayActivities ! nat sourceIndex)
                          destDayActivities))"
    by (simp add: moveBetweenDays_def Array_from_def rm ins firstElement_def)
  have "length (removeAt (nat sourceIndex) sourceDayActivities) + 
        length (insertAt (nat destIndex) (sourceDayActivities ! nat sourceIndex) destDayActivities)
        = length sourceDayActivities + length destDayActivities"
    using ns by (simp add: length_removeAt length_insertAt)
  then show ?thesis unfolding eq by (simp add: Array_from_def)
qed

theorem cross_day_move_witness:
  "(0::int) \<le> 0 \<and> 0 < int (length [actX, actY]) \<and>
   (0::int) \<le> 1 \<and> 1 \<le> int (length [actP, actQ]) \<and>
   moveBetweenDays [actX, actY] [actP, actQ] 0 1 =
     ([Some actY], [Some actP, Some actX, Some actQ])"
proof -
  have h: "(0::int) \<le> 0" "0 < int (length [actX, actY])"
    "(0::int) \<le> 1" "1 \<le> int (length [actP, actQ])"
    by simp_all
  from cross_day_move[OF h] h show ?thesis
    by (simp add: Array_from_def removeAt_def insertAt_def)
qed

section \<open>The order written for each day\<close>

text \<open>
  Claim C2. For a drop of a day with both indices in range, the handler makes one
  \<open>updateDoc\<close> call for each position \<open>k\<close> of the reordered sequence, for the
  document of the day at that position and with \<open>order\<close> set to \<open>k\<close>; so the
  orders written are 0, 1, ..., n - 1, each once. In a store that holds the days under
  their document ids, which are distinct, every day of the reordered sequence then has
  as \<open>order\<close> its position.
\<close>

theorem day_order_is_position:
  assumes "0 \<le> sourceIndex" "sourceIndex < int (length days)"
    and "0 \<le> destIndex" "destIndex < int (length days)"
    and "destination result = Some dest" "dragType result = ''day''"
    and "index (source result) = sourceIndex" "index dest = destIndex"
  shows "\<exists>moved.
           reorderedItineraries days sourceIndex destIndex = Array_from moved \<and>
           length moved = length days \<and>
           handleDragEnd days result =
             (map (\<lambda>k. UpdateOrder (day_id (moved ! k)) k) [0..<length days], None) \<and>
           (distinct (map day_id days) \<and> (\<forall>x \<in> set days. store (day_id x) = Some x) \<longrightarrow>
              (\<forall>k < length days.
                 applyWrites store (fst (handleDragEnd days result)) (day_id (moved ! k)) =
                   Some ((moved ! k)\<lparr>order := k\<rparr>)))"
proof -
  define moved where
    "moved = insertAt (nat destIndex) (days ! nat sourceIndex) (removeAt (nat sourceIndex) days)"
  have ns: "nat sourceIndex < length days" using assms(1,2) by linarith
  have re: "reorderedItineraries days sourceIndex destIndex = Array_from moved"
    unfolding reorderedItineraries_def Array_from_def moved_def
    by (rule spliceMove_map[OF assms(1-4)])
  have ms: "mset moved = mset days"
    unfolding moved_def using ns by (rule mset_insertAt_removeAt)
  then have len: "length moved = length days" by (metis size_mset)
  have ws: "handleDragEnd days result =
              (map (\<lambda>k. UpdateOrder (day_id (moved ! k)) k) [0..<length days], None)"
    unfolding handleDragEnd_day[OF assms(5,6)] assms(7,8) re Array_from_def
      orderUpdates_defined
    using zip_upt_map[of "\<lambda>x k. UpdateOrder (day_id x) k" moved] len by simp
  have st: "applyWrites store (fst (handleDragEnd days result)) (day_id (moved ! k)) =
              Some ((moved ! k)\<lparr>order := k\<rparr>)"
    if d: "distinct (map day_id days)" and m: "\<forall>x \<in> set days. store (day_id x) = Some x"
      and k: "k < length days" for k
  proof -
    have "mset (map day_id moved) = mset (map day_id days)" using ms by simp
    then have dm: "distinct (map day_id moved)" using d by (metis mset_eq_imp_distinct_iff)
    have km: "k < length moved" using k len by simp
    have "moved ! k \<in> set days" using km ms by (metis nth_mem set_mset_mset)
    then have cur: "store (day_id (moved ! k)) = Some (moved ! k)" using m by blast
    have "fst (handleDragEnd days result) =
            map (\<lambda>(x, k). UpdateOrder (day_id x) k) (zip moved [0..<0 + length moved])"
      unfolding handleDragEnd_day[OF assms(5,6)] assms(7,8) re Array_from_def
        orderUpdates_defined by simp
    then show ?thesis
      unfolding applyWrites_def using applyWrites_order[where ys = moved and j = k and store = store
          and cur = "moved ! k" and i = 0, OF dm km cur] by simp
  qed
  show ?thesis
    using re len ws st by blast
qed

theorem day_order_is_position_witness:
  "handleDragEnd [dayD1, dayD2, dayD3] (exampleDayDrop 2 0) =
     ([UpdateOrder ''D3'' 0, UpdateOrder ''D1'' 1, UpdateOrder ''D2'' 2], None) \<and>
   applyWrites exampleStore (fst (handleDragEnd [dayD1, dayD2, dayD3] (exampleDayDrop 2 0)))
     ''D3'' = Some (dayD3\<lparr>order := 0\<rparr>) \<and>
   applyWrites exampleStore (fst (handleDragEnd [dayD1, dayD2, dayD3] (exampleDayDrop 2 0)))
     ''D1'' = Some (dayD1\<lparr>order := 1\<rparr>) \<and>
   applyWrites exampleStore (fst (handleDragEnd [dayD1, dayD2, dayD3] (exampleDayDrop 2 0)))
     ''D2'' = Some (dayD2\<lparr>order := 2\<rparr>)"
proof -
  let ?days = "[dayD1, dayD2, dayD3]"
  let ?ws = "fst (handleDragEnd ?days (exampleDayDrop 2 0))"
  have h: "(0::int) \<le> 2" "2 < int (length ?days)" "(0::int) \<le> 0" "0 < int (length ?days)"
    "destination (exampleDayDrop 2 0) = Some \<lparr>droppableId = ''days'', index = 0\<rparr>"
    "dragType (exampleDayDrop 2 0) = ''day''"
    "index (source (exampleDayDrop 2 0)) = 2"
    "index \<lparr>droppableId = ''days'', index = 0\<rparr> = 0"
    by (simp_all add: exampleDayDrop_def)
  have g: "distinct (map day_id ?days) \<and> (\<forall>x \<in> set ?days. exampleStore (day_id x) = Some x)"
    by (simp add: example_defs)
  from day_order_is_position[OF h, of exampleStore] obtain moved where
    m: "reorderedItineraries ?days 2 0 = Array_from moved" and
    w: "handleDragEnd ?days (exampleDayDrop 2 0) =
          (map (\<lambda>k. UpdateOrder (day_id (moved ! k)) k) [0..<length ?days], None)" and
    st: "distinct (map day_id ?days) \<and> (\<forall>x \<in> set ?days. exampleStore (day_id x) = Some x) \<longrightarrow>
           (\<forall>k < length ?days. applyWrites exampleStore ?ws (day_id (moved ! k)) =
              Some ((moved ! k)\<lparr>order := k\<rparr>))"
    by blast
  have "reorderedItineraries ?days 2 0 = map Some [dayD3, dayD1, dayD2]"
    by code_simp
  with m have "map Some moved = map Some [dayD3, dayD1, dayD2]"
    by (simp add: Array_from_def)
  then have mv: "moved = [dayD3, dayD1, dayD2]"
    by (rule map_injective) simp
  have ids: "day_id dayD1 = ''D1''" "day_id dayD2 = ''D2''" "day_id dayD3 = ''D3''"
    by (simp_all add: example_defs)
  from st g have a: "\<forall>k < length ?days. applyWrites exampleStore ?ws (day_id (moved ! k)) =
              Some ((moved ! k)\<lparr>order := k\<rparr>)" by blast
  have s0: "applyWrites exampleStore ?ws ''D3'' = Some (dayD3\<lparr>order := 0\<rparr>)"
    using a[rule_format, of 0] by (simp add: mv ids)
  have s1: "applyWrites exampleStore ?ws ''D1'' = Some (dayD1\<lparr>order := 1\<rparr>)"
    using a[rule_format, of 1] by (simp add: mv ids)
  have s2: "applyWrites exampleStore ?ws ''D2'' = Some (dayD2\<lparr>order := 2\<rparr>)"
    using a[rule_format, of 2] by (simp add: mv ids)
  have w': "handleDragEnd ?days (exampleDayDrop 2 0) =
     ([UpdateOrder ''D3'' 0, UpdateOrder ''D1'' 1, UpdateOrder ''D2'' 2], None)"
    unfolding w mv by (simp add: ids upt_rec)
  show ?thesis using w' s0 s1 s2 by blast
qed

section \<open>Indices out of range\<close>

text \<open>
  Claim C6 says that an index out of range is answered with an error. The handler
  checks no index: \<open>splice\<close> clamps. A day dropped at index 7 of three days, and an
  activity dropped at index 5 of three activities, are placed last, and no error is
  signalled.
\<close>

theorem out_of_range_dest_not_rejected:
  "\<not> (7 < int (length [dayD1, dayD2, dayD3])) \<and>
   handleDragEnd [dayD1, dayD2, dayD3] (exampleDayDrop 0 7) =
     ([UpdateOrder ''D2'' 0, UpdateOrder ''D3'' 1, UpdateOrder ''D1'' 2], None) \<and>
   \<not> (5 < int (length [actX, actY, actZ])) \<and>
   handleDragEnd [dayD1, dayD2, dayD3] (exampleActivityDrop ''D1'' 0 ''D1'' 5) =
     ([UpdateActivities ''D1'' [Some actY, Some actZ, Some actX]], None)"
  by code_simp

text \<open>
  Claim C6, amended. With \<open>sourceIndex\<close> in range and \<open>destIndex\<close> at or beyond the
  length of the list, the element is placed last: in the reorder of days, in the
  reorder of a day's activities and in the move between days, where it is appended to
  the destination list. The handler itself throws no error for any drop of an
  activity, nor for a drop of a day whose \<open>sourceIndex\<close> is in range, whatever
  \<open>destIndex\<close> is.
\<close>

theorem dest_beyond_end_is_clamped:
  "(0 \<le> s \<and> s < int (length days) \<and> int (length days) \<le> d \<longrightarrow>
      reorderedItineraries days s d = Array_from (removeAt (nat s) days @ [days ! nat s])) \<and>
   (0 \<le> s' \<and> s' < int (length dayActivities) \<and> int (length dayActivities) \<le> d' \<longrightarrow>
      reorderedActivities dayActivities s' d' =
        Array_from (removeAt (nat s') dayActivities @ [dayActivities ! nat s'])) \<and>
   (0 \<le> s'' \<and> s'' < int (length sourceDayActivities) \<and>
    int (length destDayActivities) \<le> d'' \<longrightarrow>
      moveBetweenDays sourceDayActivities destDayActivities s'' d'' =
        (Array_from (removeAt (nat s'') sourceDayActivities),
         Array_from (destDayActivities @ [sourceDayActivities ! nat s'']))) \<and>
   (dragType result \<noteq> ''day'' \<or>
    (0 \<le> index (source result) \<and> index (source result) < int (length itineraries)) \<longrightarrow>
      snd (handleDragEnd itineraries result) = None)"
proof (intro conjI impI)
  show "reorderedItineraries days s d = Array_from (removeAt (nat s) days @ [days ! nat s])"
    if h: "0 \<le> s \<and> s < int (length days) \<and> int (length days) \<le> d"
    unfolding reorderedItineraries_def Array_from_def
    using h by (intro spliceMove_dest_beyond) simp_all
  show "reorderedActivities dayActivities s' d' =
        Array_from (removeAt (nat s') dayActivities @ [dayActivities ! nat s'])"
    if h: "0 \<le> s' \<and> s' < int (length dayActivities) \<and> int (length dayActivities) \<le> d'"
    unfolding reorderedActivities_def Array_from_def
    using h by (intro spliceMove_dest_beyond) simp_all
  show "moveBetweenDays sourceDayActivities destDayActivities s'' d'' =
        (Array_from (removeAt (nat s'') sourceDayActivities),
         Array_from (destDayActivities @ [sourceDayActivities ! nat s'']))"
    if h: "0 \<le> s'' \<and> s'' < int (length sourceDayActivities) \<and>
           int (length destDayActivities) \<le> d''"
  proof -
    have ns: "nat s'' < length sourceDayActivities" using h by linarith
    have rm: "splice (map Some sourceDayActivities) s'' 1 [] =
              ([Some (sourceDayActivities ! nat s'')],
               map Some (removeAt (nat s'') sourceDayActivities))"
      using splice_remove_valid[of s'' "map Some sourceDayActivities"] h ns
      by (simp add: removeAt_def take_map drop_map)
    have k: "actualStart (length destDayActivities) d'' = length destDayActivities"
      using h by (simp add: actualStart_beyond)
    show ?thesis
      by (simp add: moveBetweenDays_def Array_from_def rm splice_insert_any k insertAt_def
          firstElement_def)
  qed
  show "snd (handleDragEnd itineraries result) = None"
    if h: "dragType result \<noteq> ''day'' \<or>
           (0 \<le> index (source result) \<and> index (source result) < int (length itineraries))"
  proof (cases "dragType result = ''day''")
    case False
    then show ?thesis by (rule handleDragEnd_no_error)
  next
    case True
    with h have v: "0 \<le> index (source result)" "index (source result) < int (length itineraries)"
      by simp_all
    show ?thesis
    proof (cases "destination result")
      case None
      then show ?thesis by (simp add: handleDragEnd_def)
    next
      case (Some dest)
      show ?thesis
        unfolding handleDragEnd_day[OF Some True]
          reorderedItineraries_valid_source[OF v] Array_from_def orderUpdates_defined
        by simp
    qed
  qed
qed

theorem dest_beyond_end_is_clamped_witness:
  "reorderedItineraries [dayD1, dayD2, dayD3] 0 7 = [Some dayD2, Some dayD3, Some dayD1] \<and>
   reorderedActivities [actX, actY, actZ] 1 3 = [Some actX, Some actZ, Some actY] \<and>
   moveBetweenDays [actX, actY] [actP, actQ] 0 9 = ([Some actY], [Some actP, Some actQ, Some actX]) \<and>
   snd (handleDragEnd [dayD1, dayD2, dayD3] (exampleDayDrop 0 7)) = None"
  using dest_beyond_end_is_clamped[of 0 "[dayD1, dayD2, dayD3]" 7 1 "[actX, actY, actZ]" 3
      0 "[actX, actY]" "[actP, actQ]" 9 "exampleDayDrop 0 7" "[dayD1, dayD2, dayD3]"]
  by (simp add: Array_from_def removeAt_def exampleDayDrop_def)

section \<open>Rounding to the nearest double\<close>

text \<open>
  Facts about \<open>fl\<close>: the binary exponent brackets its argument, rounding is monotone,
  a rounded value is a double and rounds to itself, a double below another double is
  below it by at least one part in 2 to the power 53, and a whole number between minus
  2 to the power 53 and 2 to the power 53 is a double.
\<close>

lemma binaryExponent_bounds:
  assumes "0 < a"
  shows "2 powi (binaryExponent a) \<le> a" and "a < 2 powi (binaryExponent a + 1)"
proof -
  show "2 powi (binaryExponent a) \<le> a"
  proof (cases "1 \<le> a")
    case True
    define n where "n = \<lfloor>a\<rfloor>"
    have n: "0 < n" using True by (simp add: n_def)
    have k: "1 \<le> bitlen n" using n by (simp add: bitlen_alt_def)
    have "(2::int) ^ nat (bitlen n - 1) \<le> n" using bitlen_bounds[OF n] by simp
    then have "real_of_int ((2::int) ^ nat (bitlen n - 1)) \<le> real_of_int n" by linarith
    then have "(2::real) ^ nat (bitlen n - 1) \<le> real_of_int n" by simp
    also have "\<dots> \<le> a" by (simp add: n_def)
    finally show ?thesis using True k by (simp add: binaryExponent_def n_def power_int_def)
  next
    case False
    define y where "y = 1 / a"
    define n where "n = \<lceil>y\<rceil>"
    have y: "1 < y" using False assms by (simp add: y_def)
    have n: "0 < n - 1" using y by (simp add: n_def less_ceiling_iff)
    define k where "k = bitlen (n - 1)"
    have k: "1 \<le> k" using n by (simp add: k_def bitlen_alt_def)
    have "n - 1 < 2 ^ nat k" using bitlen_bounds[OF n] by (simp add: k_def)
    then have "n \<le> 2 ^ nat k" by simp
    then have "real_of_int n \<le> real_of_int (2 ^ nat k)" by linarith
    then have "real_of_int n \<le> 2 ^ nat k" by simp
    moreover have "y \<le> real_of_int n" by (simp add: n_def)
    ultimately have "1 / a \<le> 2 ^ nat k" unfolding y_def by linarith
    then have "1 / 2 ^ nat k \<le> a" using assms by (simp add: field_simps)
    moreover have "binaryExponent a = - k"
      using False by (simp add: binaryExponent_def k_def n_def y_def)
    ultimately show ?thesis using k by (simp add: power_int_def field_simps)
  qed
  show "a < 2 powi (binaryExponent a + 1)"
  proof (cases "1 \<le> a")
    case True
    define n where "n = \<lfloor>a\<rfloor>"
    have n: "0 < n" using True by (simp add: n_def)
    have k: "1 \<le> bitlen n" using n by (simp add: bitlen_alt_def)
    have "n < 2 ^ nat (bitlen n)" using bitlen_bounds[OF n] by simp
    then have "n + 1 \<le> 2 ^ nat (bitlen n)" by simp
    then have "real_of_int (n + 1) \<le> real_of_int (2 ^ nat (bitlen n))" by linarith
    then have "real_of_int n + 1 \<le> 2 ^ nat (bitlen n)" by simp
    moreover have "a < real_of_int n + 1" by (simp add: n_def)
    ultimately have "a < 2 ^ nat (bitlen n)" by linarith
    then show ?thesis using True k by (simp add: binaryExponent_def n_def power_int_def)
  next
    case False
    define y where "y = 1 / a"
    define n where "n = \<lceil>y\<rceil>"
    have y: "1 < y" using False assms by (simp add: y_def)
    have n: "0 < n - 1" using y by (simp add: n_def less_ceiling_iff)
    define k where "k = bitlen (n - 1)"
    have k: "1 \<le> k" using n by (simp add: k_def bitlen_alt_def)
    have "2 ^ nat (k - 1) \<le> n - 1" using bitlen_bounds[OF n] by (simp add: k_def)
    then have "real_of_int (2 ^ nat (k - 1)) \<le> real_of_int (n - 1)" by linarith
    then have "2 ^ nat (k - 1) \<le> real_of_int n - 1" by simp
    moreover have "real_of_int n - 1 < y" unfolding n_def by linarith
    ultimately have "2 ^ nat (k - 1) < 1 / a" unfolding y_def by linarith
    then have "a < 1 / 2 ^ nat (k - 1)" using assms by (simp add: field_simps)
    moreover have "binaryExponent a = - k"
      using False by (simp add: binaryExponent_def k_def n_def y_def)
    moreover have "(2::real) powi (- k + 1) = 1 / 2 ^ nat (k - 1)"
      using k by (simp add: power_int_def field_simps nat_diff_distrib)
    ultimately show ?thesis by simp
  qed
qed

lemma powi_two_mono: "e1 \<le> e2 \<Longrightarrow> (2::real) powi e1 \<le> 2 powi e2"
  by (rule power_int_increasing) simp_all

lemma binaryExponent_unique:
  assumes "2 powi e \<le> a" "a < 2 powi (e + 1)"
  shows "binaryExponent a = e"
proof -
  have a: "0 < a" using assms(1) zero_less_power_int[of "2::real" e] by linarith
  note b = binaryExponent_bounds[OF a]
  have "\<not> binaryExponent a < e"
  proof
    assume "binaryExponent a < e"
    then have "(2::real) powi (binaryExponent a + 1) \<le> 2 powi e" by (intro powi_two_mono) simp
    with b(2) assms(1) show False by linarith
  qed
  moreover have "\<not> e < binaryExponent a"
  proof
    assume "e < binaryExponent a"
    then have "(2::real) powi (e + 1) \<le> 2 powi (binaryExponent a)" by (intro powi_two_mono) simp
    with b(1) assms(2) show False by linarith
  qed
  ultimately show ?thesis by linarith
qed

lemma binaryExponent_mono:
  assumes "0 < a" "a \<le> b"
  shows "binaryExponent a \<le> binaryExponent b"
proof (rule ccontr)
  assume "\<not> binaryExponent a \<le> binaryExponent b"
  then have "(2::real) powi (binaryExponent b + 1) \<le> 2 powi (binaryExponent a)"
    by (intro powi_two_mono) simp
  moreover have "b < 2 powi (binaryExponent b + 1)" using assms by (intro binaryExponent_bounds) simp
  moreover have "2 powi (binaryExponent a) \<le> a" using assms by (intro binaryExponent_bounds)
  ultimately show False using assms(2) by linarith
qed

lemma roundHalfEven_of_int [simp]: "roundHalfEven (of_int k) = k"
  by (simp add: roundHalfEven_def)

lemma roundHalfEven_ge: "of_int k \<le> z \<Longrightarrow> k \<le> roundHalfEven z"
proof -
  assume "of_int k \<le> z"
  then have "k \<le> \<lfloor>z\<rfloor>" by (simp add: le_floor_iff)
  then show ?thesis by (auto simp: roundHalfEven_def Let_def)
qed

lemma roundHalfEven_le: "z \<le> of_int k \<Longrightarrow> roundHalfEven z \<le> k"
proof -
  assume h: "z \<le> of_int k"
  show ?thesis
  proof (cases "z = of_int k")
    case True
    then show ?thesis by simp
  next
    case False
    with h have "z < of_int k" by simp
    then have "\<lfloor>z\<rfloor> < k" by (simp add: floor_less_iff)
    then have "\<lfloor>z\<rfloor> + 1 \<le> k" by simp
    then show ?thesis by (auto simp: roundHalfEven_def Let_def)
  qed
qed

lemma roundHalfEven_mono: "z \<le> w \<Longrightarrow> roundHalfEven z \<le> roundHalfEven w"
proof -
  assume h: "z \<le> w"
  have fz: "\<lfloor>z\<rfloor> \<le> \<lfloor>w\<rfloor>" using h by (rule floor_mono)
  show ?thesis
  proof (cases "\<lfloor>z\<rfloor> = \<lfloor>w\<rfloor>")
    case True
    then have "z - of_int \<lfloor>z\<rfloor> \<le> w - of_int \<lfloor>w\<rfloor>" using h by simp
    then show ?thesis using True by (auto simp: roundHalfEven_def Let_def)
  next
    case False
    with fz have "\<lfloor>z\<rfloor> + 1 \<le> \<lfloor>w\<rfloor>" by simp
    moreover have "roundHalfEven z \<le> \<lfloor>z\<rfloor> + 1" by (auto simp: roundHalfEven_def Let_def)
    moreover have "\<lfloor>w\<rfloor> \<le> roundHalfEven w" by (auto simp: roundHalfEven_def Let_def)
    ultimately show ?thesis by linarith
  qed
qed

lemma quantum_pos [simp]: "0 < quantum a"
  by (simp add: quantum_def)

lemma quantum_nonneg [simp]: "0 \<le> quantum a"
  using quantum_pos[of a] by (rule less_imp_le)

lemma roundMagnitude_nonneg: "0 < a \<Longrightarrow> 0 \<le> roundMagnitude a"
proof -
  assume "0 < a"
  then have "0 \<le> a / quantum a" using quantum_pos[of a] by (simp add: less_imp_le)
  then have "of_int 0 \<le> a / quantum a" by simp
  then have "0 \<le> roundHalfEven (a / quantum a)" by (rule roundHalfEven_ge)
  then have "0 \<le> real_of_int (roundHalfEven (a / quantum a))" by simp
  then show ?thesis unfolding roundMagnitude_def by (intro mult_nonneg_nonneg) simp_all
qed

lemma quantum_clampedExponent: "quantum a = 2 powi (clampedExponent a - 52)"
  by (simp add: quantum_def)

lemma clampedExponent_upper: "0 < a \<Longrightarrow> a < 2 powi (clampedExponent a + 1)"
proof -
  assume a: "0 < a"
  have "a < 2 powi (binaryExponent a + 1)" using a by (rule binaryExponent_bounds)
  also have "\<dots> \<le> 2 powi (clampedExponent a + 1)" by (intro powi_two_mono) (simp add: clampedExponent_def)
  finally show ?thesis .
qed

lemma clampedExponent_mono: "0 < a \<Longrightarrow> a \<le> b \<Longrightarrow> clampedExponent a \<le> clampedExponent b"
  using binaryExponent_mono[of a b] by (simp add: clampedExponent_def)

lemma powi_two_split: "(2::real) powi (a + b) = 2 powi a * 2 powi b"
  by (simp add: power_int_add)

lemma top_of_binade: "2 ^ 53 * quantum a = 2 powi (clampedExponent a + 1)"
proof -
  have e: "clampedExponent a + 1 = 53 + (clampedExponent a - 52)" by simp
  have "(2::real) powi (53 + (clampedExponent a - 52)) = 2 powi 53 * 2 powi (clampedExponent a - 52)"
    by (rule powi_two_split)
  then have "(2::real) powi (clampedExponent a + 1) = 2 powi 53 * quantum a"
    by (simp only: e[symmetric] quantum_clampedExponent)
  moreover have "(2::real) powi 53 = 2 ^ 53" by simp
  ultimately show ?thesis by (simp only:)
qed

lemma bottom_of_binade: "2 ^ 52 * quantum a = 2 powi (clampedExponent a)"
proof -
  have e: "clampedExponent a = 52 + (clampedExponent a - 52)" by simp
  have "(2::real) powi (52 + (clampedExponent a - 52)) = 2 powi 52 * 2 powi (clampedExponent a - 52)"
    by (rule powi_two_split)
  then have "(2::real) powi (clampedExponent a) = 2 powi 52 * quantum a"
    by (simp only: e[symmetric] quantum_clampedExponent)
  moreover have "(2::real) powi 52 = 2 ^ 52" by simp
  ultimately show ?thesis by (simp only:)
qed

lemma scaled_less: "0 < a \<Longrightarrow> a / quantum a < 2 ^ 53"
proof -
  assume a: "0 < a"
  have "a < 2 ^ 53 * quantum a" using clampedExponent_upper[OF a] by (simp only: top_of_binade)
  then show ?thesis using quantum_pos[of a] by (simp only: pos_divide_less_eq)
qed

lemma roundMagnitude_le_top: "0 < a \<Longrightarrow> roundMagnitude a \<le> 2 powi (clampedExponent a + 1)"
proof -
  assume a: "0 < a"
  have "a / quantum a \<le> 2 ^ 53" using scaled_less[OF a] by (rule less_imp_le)
  then have "a / quantum a \<le> of_int (2 ^ 53)" by simp
  then have "roundHalfEven (a / quantum a) \<le> 2 ^ 53" by (rule roundHalfEven_le)
  then have "real_of_int (roundHalfEven (a / quantum a)) \<le> real_of_int (2 ^ 53)"
    by (simp only: of_int_le_iff)
  then have "real_of_int (roundHalfEven (a / quantum a)) * quantum a \<le> real_of_int (2 ^ 53) * quantum a"
    by (intro mult_right_mono) simp_all
  then have "roundMagnitude a \<le> 2 ^ 53 * quantum a"
    by (simp add: roundMagnitude_def)
  then show ?thesis by (simp only: top_of_binade)
qed

lemma roundMagnitude_ge_bottom:
  assumes "2 powi (clampedExponent a) \<le> a"
  shows "2 powi (clampedExponent a) \<le> roundMagnitude a"
proof -
  have "2 ^ 52 * quantum a \<le> a" using assms by (simp only: bottom_of_binade)
  then have "2 ^ 52 \<le> a / quantum a" using quantum_pos[of a] by (simp only: pos_le_divide_eq)
  then have "of_int (2 ^ 52) \<le> a / quantum a" by simp
  then have "2 ^ 52 \<le> roundHalfEven (a / quantum a)" by (rule roundHalfEven_ge)
  then have "real_of_int (2 ^ 52) \<le> real_of_int (roundHalfEven (a / quantum a))"
    by (simp only: of_int_le_iff)
  then have "real_of_int (2 ^ 52) * quantum a \<le> real_of_int (roundHalfEven (a / quantum a)) * quantum a"
    by (intro mult_right_mono) simp_all
  then have "2 ^ 52 * quantum a \<le> roundMagnitude a"
    by (simp add: roundMagnitude_def)
  then show ?thesis by (simp only: bottom_of_binade)
qed

lemma normal_bottom: "0 < a \<Longrightarrow> - 1022 < clampedExponent a \<Longrightarrow> 2 powi (clampedExponent a) \<le> a"
proof -
  assume a: "0 < a" and c: "- 1022 < clampedExponent a"
  then have "clampedExponent a = binaryExponent a" by (simp add: clampedExponent_def)
  then show ?thesis using binaryExponent_bounds(1)[OF a] by simp
qed

lemma roundMagnitude_mono:
  assumes "0 < x" "x \<le> y"
  shows "roundMagnitude x \<le> roundMagnitude y"
proof (cases "clampedExponent x = clampedExponent y")
  case True
  then have q: "quantum x = quantum y" by (simp add: quantum_clampedExponent)
  have "x / quantum y \<le> y / quantum y"
    using assms(2) by (intro divide_right_mono) simp_all
  then have "roundHalfEven (x / quantum y) \<le> roundHalfEven (y / quantum y)"
    by (rule roundHalfEven_mono)
  then have "real_of_int (roundHalfEven (x / quantum y)) \<le> real_of_int (roundHalfEven (y / quantum y))"
    by (simp only: of_int_le_iff)
  then have "real_of_int (roundHalfEven (x / quantum y)) * quantum y \<le>
             real_of_int (roundHalfEven (y / quantum y)) * quantum y"
    by (intro mult_right_mono) simp_all
  then show ?thesis by (simp add: roundMagnitude_def q)
next
  case False
  then have lt: "clampedExponent x < clampedExponent y" using clampedExponent_mono[OF assms] by simp
  have y: "0 < y" using assms by simp
  have "- 1022 \<le> clampedExponent x" by (simp add: clampedExponent_def)
  then have "- 1022 < clampedExponent y" using lt by simp
  then have "2 powi (clampedExponent y) \<le> roundMagnitude y"
    using normal_bottom[OF y] by (intro roundMagnitude_ge_bottom) simp
  moreover have "roundMagnitude x \<le> 2 powi (clampedExponent x + 1)"
    using assms(1) by (rule roundMagnitude_le_top)
  moreover have "(2::real) powi (clampedExponent x + 1) \<le> 2 powi (clampedExponent y)"
    using lt by (intro powi_two_mono) simp
  ultimately show ?thesis by linarith
qed

lemma roundMagnitude_exact:
  assumes "a / quantum a = of_int n"
  shows "roundMagnitude a = a"
proof -
  have "a = of_int n * quantum a"
    using assms quantum_pos[of a] by (simp add: field_simps)
  then show ?thesis using assms by (simp add: roundMagnitude_def)
qed

lemma fl_pos: "0 < x \<Longrightarrow> fl x = (if roundMagnitude x \<ge> 2 powi 1024 then PInf else Fin (roundMagnitude x))"
  by (simp add: fl_def Let_def)

lemma fl_neg: "fl (- x) = jneg (fl x)"
  by (simp add: fl_def Let_def)

lemma jge_refl_fl: "jge (fl x) (fl x)"
  by (simp add: fl_def Let_def)

lemma fl_mono_pos:
  assumes "0 < x" "x \<le> y"
  shows "jge (fl y) (fl x)"
proof -
  have y: "0 < y" using assms by simp
  have m: "roundMagnitude x \<le> roundMagnitude y" using assms by (rule roundMagnitude_mono)
  show ?thesis using m by (simp add: fl_pos[OF assms(1)] fl_pos[OF y])
qed

lemma fl_nonneg: "0 \<le> x \<Longrightarrow> jge (fl x) (Fin 0)"
proof (cases "x = 0")
  case True
  then show ?thesis by (simp add: fl_def)
next
  case False
  assume "0 \<le> x"
  with False have x: "0 < x" by simp
  show ?thesis using roundMagnitude_nonneg[OF x] by (simp add: fl_pos[OF x])
qed

lemma jge_jneg: "jge (jneg a) (jneg b) = jge b a"
  by (cases a; cases b) auto

lemma jge_trans: "jge a b \<Longrightarrow> jge b c \<Longrightarrow> jge a c"
  by (cases a; cases b; cases c) auto

lemma fl_nonpos: "x \<le> 0 \<Longrightarrow> jge (Fin 0) (fl x)"
proof -
  assume "x \<le> 0"
  then have "jge (fl (- x)) (Fin 0)" by (intro fl_nonneg) simp
  then have "jge (jneg (fl x)) (jneg (Fin 0))" by (simp add: fl_neg)
  then show ?thesis unfolding jge_jneg .
qed

lemma fl_mono:
  assumes "x \<le> y"
  shows "jge (fl y) (fl x)"
proof -
  consider "0 < x" | "x \<le> 0" "0 \<le> y" | "y < 0" by linarith
  then show ?thesis
  proof cases
    case 1
    then show ?thesis using assms by (rule fl_mono_pos)
  next
    case 2
    then show ?thesis using fl_nonneg fl_nonpos jge_trans by blast
  next
    case 3
    then have "jge (fl (- x)) (fl (- y))" using assms by (intro fl_mono_pos) simp_all
    then show ?thesis by (simp add: fl_neg jge_jneg)
  qed
qed

lemma quotient_eqI: "k * quantum a = y \<Longrightarrow> y / quantum a = k"
proof -
  assume h: "k * quantum a = y"
  have "quantum a \<noteq> 0" using quantum_pos[of a] by (simp del: quantum_pos)
  then have "k * quantum a / quantum a = k" by simp
  then show ?thesis by (simp only: h)
qed

lemma clampedExponent_lower_bound: "- 1022 \<le> clampedExponent a"
  by (simp add: clampedExponent_def)

lemma powi_two_less_imp: "(2::real) powi a < 2 powi b \<Longrightarrow> a < b"
proof (rule ccontr)
  assume h: "(2::real) powi a < 2 powi b" and "\<not> a < b"
  then have "(2::real) powi b \<le> 2 powi a" by (intro powi_two_mono) simp
  with h show False by linarith
qed

lemma clampedExponent_eqI:
  assumes "0 < m" "m < 2 powi (c + 1)" "- 1022 \<le> c" "- 1022 < c \<longrightarrow> 2 powi c \<le> m"
  shows "clampedExponent m = c"
proof -
  have "2 powi (binaryExponent m) \<le> m" using assms(1) by (rule binaryExponent_bounds)
  then have "(2::real) powi (binaryExponent m) < 2 powi (c + 1)" using assms(2) by linarith
  then have "binaryExponent m < c + 1" by (rule powi_two_less_imp)
  then have up: "binaryExponent m \<le> c" by simp
  show ?thesis
  proof (cases "- 1022 < c")
    case True
    with assms(4) have "2 powi c \<le> m" by simp
    moreover have "m < 2 powi (binaryExponent m + 1)" using assms(1) by (rule binaryExponent_bounds)
    ultimately have "(2::real) powi c < 2 powi (binaryExponent m + 1)" by linarith
    then have "c < binaryExponent m + 1" by (rule powi_two_less_imp)
    with up True show ?thesis by (simp add: clampedExponent_def)
  next
    case False
    with assms(3) have "c = - 1022" by simp
    with up show ?thesis by (simp add: clampedExponent_def)
  qed
qed

lemma isDouble_pos_iff:
  assumes "0 < x"
  shows "isDouble x \<longleftrightarrow> roundMagnitude x = x \<and> x < 2 powi 1024"
  using assms by (auto simp: isDouble_def fl_pos)

lemma isDouble_scaled:
  assumes "0 < x" "isDouble x"
  shows "x / quantum x = of_int (roundHalfEven (x / quantum x))"
proof -
  have "roundMagnitude x = x" using assms by (simp add: isDouble_pos_iff)
  then have "of_int (roundHalfEven (x / quantum x)) * quantum x = x"
    by (simp add: roundMagnitude_def)
  then show ?thesis by (rule quotient_eqI)
qed

lemma isDouble_zero [simp]: "isDouble 0"
  by (simp add: isDouble_def fl_def)

lemma isDouble_minus [simp]: "isDouble (- x) = isDouble x"
  by (cases "fl x") (auto simp: isDouble_def fl_neg)

lemma roundMagnitude_idem:
  assumes "0 < x" "0 < roundMagnitude x"
  shows "roundMagnitude (roundMagnitude x) = roundMagnitude x"
proof -
  define c where "c = clampedExponent x"
  define n where "n = roundHalfEven (x / quantum x)"
  define m where "m = roundMagnitude x"
  have m: "m = of_int n * quantum x" by (simp add: m_def n_def roundMagnitude_def)
  have mpos: "0 < m" using assms(2) by (simp add: m_def)
  have top: "m \<le> 2 powi (c + 1)" unfolding m_def c_def using assms(1) by (rule roundMagnitude_le_top)
  have c: "- 1022 \<le> c" by (simp add: c_def clampedExponent_lower_bound)
  show ?thesis
  proof (cases "m = 2 powi (c + 1)")
    case True
    have "m < 2 powi (c + 1 + 1)"
      using True power_int_strict_increasing[of "c + 1" "c + 1 + 1" "2::real"] by simp
    then have cm: "clampedExponent m = c + 1"
      using mpos c True by (intro clampedExponent_eqI) simp_all
    have "2 ^ 52 * quantum m = m" using cm True by (simp only: bottom_of_binade)
    then have "m / quantum m = 2 ^ 52" by (rule quotient_eqI)
    then have "m / quantum m = of_int (2 ^ 52)" by simp
    then have "roundMagnitude m = m" by (rule roundMagnitude_exact)
    then show ?thesis by (simp add: m_def)
  next
    case False
    with top have lt: "m < 2 powi (c + 1)" by simp
    have "- 1022 < c \<longrightarrow> 2 powi c \<le> m"
    proof
      assume "- 1022 < c"
      then have "2 powi (clampedExponent x) \<le> x" using assms(1) by (intro normal_bottom) (simp_all add: c_def)
      then show "2 powi c \<le> m" unfolding m_def c_def by (rule roundMagnitude_ge_bottom)
    qed
    then have cm: "clampedExponent m = c" using mpos lt c by (intro clampedExponent_eqI)
    then have "quantum m = quantum x" by (simp add: quantum_clampedExponent c_def)
    then have "of_int n * quantum m = m" using m by simp
    then have "m / quantum m = of_int n" by (rule quotient_eqI)
    then have "roundMagnitude m = m" by (rule roundMagnitude_exact)
    then show ?thesis by (simp add: m_def)
  qed
qed

lemma fl_isDouble:
  assumes "fl x = Fin y"
  shows "isDouble y"
proof -
  have pos: "isDouble v" if "0 < u" "fl u = Fin v" for u v
  proof -
    have v: "v = roundMagnitude u" and b: "roundMagnitude u < 2 powi 1024"
      using that by (auto simp: fl_pos split: if_splits)
    show ?thesis
    proof (cases "roundMagnitude u = 0")
      case True
      then show ?thesis by (simp add: v)
    next
      case False
      then have p: "0 < roundMagnitude u" using roundMagnitude_nonneg[OF that(1)] by simp
      have "roundMagnitude (roundMagnitude u) = roundMagnitude u"
        using that(1) p by (rule roundMagnitude_idem)
      then show ?thesis using p b by (simp add: v isDouble_pos_iff)
    qed
  qed
  consider "x = 0" | "0 < x" | "x < 0" by linarith
  then show ?thesis
  proof cases
    case 1
    then show ?thesis using assms by (simp add: fl_def)
  next
    case 2
    then show ?thesis using assms by (rule pos)
  next
    case 3
    have "fl (- x) = Fin (- y)" using assms by (simp add: fl_neg)
    then have "isDouble (- y)" using 3 by (intro pos[of "- x"]) simp_all
    then show ?thesis by simp
  qed
qed

lemma double_gap:
  assumes "isDouble t" "isDouble b" "0 < t" "t < b"
  shows "t \<le> b * (1 - 1 / 2 ^ 53)"
proof -
  have bpos: "0 < b" using assms by simp
  define nt where "nt = roundHalfEven (t / quantum t)"
  define nb where "nb = roundHalfEven (b / quantum b)"
  have t: "t / quantum t = of_int nt" unfolding nt_def using assms(3,1) by (rule isDouble_scaled)
  have b: "b / quantum b = of_int nb" unfolding nb_def using bpos assms(2) by (rule isDouble_scaled)
  have t': "t = of_int nt * quantum t" using t quantum_pos[of t] by (simp add: field_simps)
  have b': "b = of_int nb * quantum b" using b quantum_pos[of b] by (simp add: field_simps)
  show ?thesis
  proof (cases "clampedExponent t = clampedExponent b")
    case True
    then have q: "quantum t = quantum b" by (simp add: quantum_clampedExponent)
    have "of_int nt * quantum b < of_int nb * quantum b" using assms(4) t' b' q by simp
    then have "nt < nb" using quantum_pos[of b] by (simp add: mult_less_cancel_right)
    then have "real_of_int nt + 1 \<le> real_of_int nb" by linarith
    then have "(real_of_int nt + 1) * quantum b \<le> real_of_int nb * quantum b"
      by (intro mult_right_mono) simp_all
    then have step: "t + quantum b \<le> b" using t' b' q by (simp add: algebra_simps)
    have "b / quantum b < 2 ^ 53" using bpos by (rule scaled_less)
    then have "b < 2 ^ 53 * quantum b" using quantum_pos[of b] by (simp add: field_simps)
    then have "b / 2 ^ 53 < quantum b" by (simp add: field_simps)
    with step have "t \<le> b - b / 2 ^ 53" by linarith
    then show ?thesis by (simp add: algebra_simps)
  next
    case False
    then have lt: "clampedExponent t < clampedExponent b" using clampedExponent_mono[of t b] assms by simp
    have "t / quantum t < 2 ^ 53" using assms(3) by (rule scaled_less)
    then have "real_of_int nt < real_of_int (2 ^ 53)" using t by simp
    then have "nt < 2 ^ 53" by (simp only: of_int_less_iff)
    then have "nt \<le> 2 ^ 53 - 1" by simp
    then have "real_of_int nt \<le> real_of_int (2 ^ 53 - 1)" by (simp only: of_int_le_iff)
    then have "real_of_int nt * quantum t \<le> real_of_int (2 ^ 53 - 1) * quantum t"
      by (intro mult_right_mono) simp_all
    then have "t \<le> (2 ^ 53 - 1) * quantum t" using t' by simp
    also have "\<dots> = 2 ^ 53 * quantum t * (1 - 1 / 2 ^ 53)" by (simp add: algebra_simps)
    also have "\<dots> = 2 powi (clampedExponent t + 1) * (1 - 1 / 2 ^ 53)" by (simp only: top_of_binade)
    also have "\<dots> \<le> 2 powi (clampedExponent b) * (1 - 1 / 2 ^ 53)"
      using lt by (intro mult_right_mono powi_two_mono) simp_all
    also have "\<dots> \<le> b * (1 - 1 / 2 ^ 53)"
    proof -
      have "- 1022 < clampedExponent b" using lt clampedExponent_lower_bound[of t] by linarith
      then have "2 powi (clampedExponent b) \<le> b" using bpos by (intro normal_bottom)
      then show ?thesis by (intro mult_right_mono) simp_all
    qed
    finally show ?thesis .
  qed
qed

lemma fl_whole_pos:
  assumes "0 < z" "z \<le> 2 ^ 53"
  shows "fl (of_int z) = Fin (of_int z)"
proof -
  define a where "a = real_of_int z"
  have a: "0 < a" "1 \<le> a" using assms(1) by (simp_all add: a_def)
  have le: "a \<le> 2 ^ 53"
  proof -
    have "real_of_int z \<le> real_of_int (2 ^ 53)" using assms(2) by (simp only: of_int_le_iff)
    then show ?thesis by (simp add: a_def)
  qed
  define c where "c = clampedExponent a"
  have "(2::real) powi 0 \<le> a" using a(2) by simp
  moreover have "a < 2 powi (binaryExponent a + 1)" using a(1) by (rule binaryExponent_bounds)
  ultimately have "(2::real) powi 0 < 2 powi (binaryExponent a + 1)" by linarith
  then have "0 < binaryExponent a + 1" by (rule powi_two_less_imp)
  then have c0: "0 \<le> c" "c = binaryExponent a" by (simp_all add: c_def clampedExponent_def)
  have "2 powi c \<le> a" unfolding c0(2) using a(1) by (rule binaryExponent_bounds)
  then have "(2::real) powi c < 2 powi 54" using le by simp
  then have c53: "c \<le> 53" using powi_two_less_imp[of c 54] by simp
  have lt: "a < 2 powi 1024" using le by simp
  have "\<exists>n. a / quantum a = of_int n"
  proof (cases "c \<le> 52")
    case True
    have "quantum a * 2 ^ nat (52 - c) = 2 powi (c - 52) * 2 powi (52 - c)"
      using True by (simp add: quantum_clampedExponent c_def power_int_def)
    also have "\<dots> = 2 powi (c - 52 + (52 - c))" by (simp only: powi_two_split)
    also have "\<dots> = 1" by simp
    finally have "of_int (z * 2 ^ nat (52 - c)) * quantum a = a"
      by (simp add: a_def algebra_simps)
    then have "a / quantum a = of_int (z * 2 ^ nat (52 - c))" by (rule quotient_eqI)
    then show ?thesis ..
  next
    case False
    with c53 have c: "c = 53" by simp
    have "2 powi c \<le> a" unfolding c0(2) using a(1) by (rule binaryExponent_bounds)
    then have "a = 2 ^ 53" using le c by simp
    moreover have "quantum a = 2" using c by (simp add: quantum_clampedExponent c_def)
    ultimately have "of_int (2 ^ 52) * quantum a = a" by simp
    then have "a / quantum a = of_int (2 ^ 52)" by (rule quotient_eqI)
    then show ?thesis ..
  qed
  then obtain n where "a / quantum a = of_int n" ..
  then have "roundMagnitude a = a" by (rule roundMagnitude_exact)
  then show ?thesis using a(1) lt by (simp add: fl_pos a_def)
qed

lemma fl_whole:
  assumes "\<bar>z\<bar> \<le> 2 ^ 53"
  shows "fl (of_int z) = Fin (of_int z)"
proof -
  consider "z = 0" | "0 < z" | "z < 0" by linarith
  then show ?thesis
  proof cases
    case 1
    then show ?thesis by (simp add: fl_def)
  next
    case 2
    then show ?thesis using assms by (intro fl_whole_pos) simp_all
  next
    case 3
    then have "fl (of_int (- z)) = Fin (of_int (- z))" using assms by (intro fl_whole_pos) simp_all
    then have "jneg (fl (of_int z)) = Fin (- of_int z)" by (simp add: fl_neg)
    then show ?thesis by (cases "fl (of_int z)") simp_all
  qed
qed

section \<open>Evaluating a rounding\<close>

text \<open>
  The value of \<open>fl x\<close> follows from the exponent of \<open>x\<close> and the integer that the
  scaled \<open>x\<close> rounds to; both are given, and checked, for each concrete rounding below.
\<close>

lemma roundHalfEven_near:
  assumes "of_int n - 1 / 2 < z" "z < of_int n + 1 / 2"
  shows "roundHalfEven z = n"
proof (cases "of_int n \<le> z")
  case True
  then have f: "\<lfloor>z\<rfloor> = n" using assms(2) by (intro floor_unique) simp_all
  then show ?thesis using assms(2) by (simp add: roundHalfEven_def Let_def)
next
  case False
  then have f: "\<lfloor>z\<rfloor> = n - 1" using assms(1) by (intro floor_unique) simp_all
  then show ?thesis using assms(1) by (simp add: roundHalfEven_def Let_def)
qed

lemma roundHalfEven_tie:
  assumes "z = of_int f + 1 / 2"
  shows "roundHalfEven z = (if even f then f else f + 1)"
proof -
  have "\<lfloor>z\<rfloor> = f" using assms by (intro floor_unique) simp_all
  then show ?thesis using assms by (simp add: roundHalfEven_def Let_def)
qed

lemma fl_eval_pos:
  assumes "2 powi e \<le> x" "x < 2 powi (e + 1)" "- 1022 \<le> e"
    and "roundHalfEven (x / 2 powi (e - 52)) = n"
    and "of_int n * 2 powi (e - 52) = m" "m < 2 powi 1024"
  shows "fl x = Fin m"
proof -
  have x: "0 < x" using assms(1) zero_less_power_int[of "2::real" e] by linarith
  have "binaryExponent x = e" using assms(1,2) by (rule binaryExponent_unique)
  then have q: "quantum x = 2 powi (e - 52)" using assms(3) by (simp add: quantum_def clampedExponent_def)
  have "roundMagnitude x = m" using assms(4,5) by (simp add: roundMagnitude_def q)
  then show ?thesis using x assms(6) by (simp add: fl_pos)
qed

lemma fl_eval_neg:
  assumes "fl (- x) = Fin m"
  shows "fl x = Fin (- m)"
proof -
  have "jneg (fl x) = Fin m" using assms by (simp add: fl_neg)
  then show ?thesis by (cases "fl x") simp_all
qed

lemma fl_below_one: "fl (1 - 1 / 2 ^ 53) = Fin (9007199254740991 / 9007199254740992)"
  by (rule fl_eval_pos[where e = "- 1" and n = 9007199254740991]) (simp_all add: roundHalfEven_near)

lemma fl_hundred_below_one: "fl ((1 - 1 / 2 ^ 53) * 100) = Fin (100 - 1 / 2 ^ 46)"
  by (rule fl_eval_pos[where e = "6" and n = 7036874417766399]) (simp_all add: roundHalfEven_near)

lemma fl_four_fifths: "fl (4 / 5) = Fin (3602879701896397 / 4503599627370496)"
  by (rule fl_eval_pos[where e = "- 1" and n = 7205759403792794]) (simp_all add: roundHalfEven_near)

lemma fl_hundred_four_fifths: "fl (3602879701896397 / 4503599627370496 * 100) = Fin (80)"
  by (rule fl_eval_pos[where e = "6" and n = 5629499534213120]) (simp_all add: roundHalfEven_near)

lemma fl_theta: "fl (900719925474099 / 2 ^ 50) = Fin (900719925474099 / 2 ^ 50)"
  by (rule fl_eval_pos[where e = "- 1" and n = 7205759403792792]) (simp_all add: roundHalfEven_near)

lemma fl_hundred_theta: "fl (900719925474099 / 2 ^ 50 * 100) = Fin (80 - 1 / 2 ^ 46)"
  by (rule fl_eval_pos[where e = "6" and n = 5629499534213119]) (simp_all add: roundHalfEven_near)

section \<open>Sums in double arithmetic\<close>

text \<open>
  The folds of \<open>calculateTotalCost\<close>, \<open>getTotalCost\<close> and \<open>isOverBudget\<close> add the
  costs one after the other, every addition rounding. On whole numbers whose absolute
  values add up to at most 2 to the power 53 no addition rounds.
\<close>

lemma wholeNumber_of_int [simp]: "wholeNumber (of_int z)"
  by (simp add: wholeNumber_def)

lemma wholeNumberE:
  assumes "wholeNumber x"
  obtains z where "x = of_int z"
  using assms unfolding wholeNumber_def by metis

lemma fl_whole_real:
  assumes "wholeNumber x" "\<bar>x\<bar> \<le> 2 ^ 53"
  shows "fl x = Fin x"
proof -
  obtain z where z: "x = of_int z" using assms(1) by (rule wholeNumberE)
  have "real_of_int \<bar>z\<bar> \<le> real_of_int (2 ^ 53)" using assms(2) z by simp
  then have "\<bar>z\<bar> \<le> 2 ^ 53" by (simp only: of_int_le_iff)
  then show ?thesis unfolding z by (rule fl_whole)
qed

lemma wholeNumber_add:
  assumes "wholeNumber x" "wholeNumber y"
  shows "wholeNumber (x + y)"
proof -
  obtain zx where zx: "x = of_int zx" using assms(1) by (rule wholeNumberE)
  obtain zy where zy: "y = of_int zy" using assms(2) by (rule wholeNumberE)
  have "x + y = of_int (zx + zy)" by (simp add: zx zy)
  then show ?thesis by (simp only: wholeNumber_of_int)
qed

lemma wholeNumber_zero [simp]: "wholeNumber 0"
  by (simp add: wholeNumber_def)

lemma wholeNumber_sum_list:
  assumes "\<forall>x \<in> set xs. wholeNumber (f x)"
  shows "wholeNumber (\<Sum>x\<leftarrow>xs. f x)"
  using assms by (induction xs) (simp_all add: wholeNumber_add)

lemma sum_list_abs_nonneg: "0 \<le> (\<Sum>x\<leftarrow>xs. \<bar>f x :: real\<bar>)"
  by (induction xs) simp_all

lemma abs_sum_list_le: "\<bar>\<Sum>x\<leftarrow>xs. (f x :: real)\<bar> \<le> (\<Sum>x\<leftarrow>xs. \<bar>f x\<bar>)"
proof (induction xs)
  case Nil
  then show ?case by simp
next
  case (Cons a xs)
  have "\<bar>f a + (\<Sum>x\<leftarrow>xs. f x)\<bar> \<le> \<bar>f a\<bar> + \<bar>\<Sum>x\<leftarrow>xs. f x\<bar>" by (rule abs_triangle_ineq)
  with Cons show ?case by simp
qed

lemma addInSequence_whole:
  assumes "wholeNumber s" "\<forall>x \<in> set xs. wholeNumber x"
    and "\<bar>s\<bar> + (\<Sum>x\<leftarrow>xs. \<bar>x\<bar>) \<le> 2 ^ 53"
  shows "addInSequence (Fin s) (map Fin xs) = Fin (s + sum_list xs)"
  using assms
proof (induction xs arbitrary: s)
  case Nil
  then show ?case by simp
next
  case (Cons x xs)
  have x: "wholeNumber x" using Cons.prems(2) by simp
  have w: "wholeNumber (s + x)" using Cons.prems(1) x by (rule wholeNumber_add)
  have nn: "0 \<le> (\<Sum>x\<leftarrow>xs. \<bar>x\<bar>)" using sum_list_abs_nonneg[of "\<lambda>x. x" xs] by simp
  have b: "\<bar>s + x\<bar> + (\<Sum>x\<leftarrow>xs. \<bar>x\<bar>) \<le> 2 ^ 53" using Cons.prems(3) by simp
  then have "\<bar>s + x\<bar> \<le> 2 ^ 53" using nn by linarith
  then have "fl (s + x) = Fin (s + x)" using w by (intro fl_whole_real)
  moreover have "addInSequence (Fin (s + x)) (map Fin xs) = Fin (s + x + sum_list xs)"
    using w Cons.prems(2) b by (intro Cons.IH) simp_all
  ultimately show ?case by (simp add: add.assoc)
qed

lemma foldl_jadd_addInSequence:
  "foldl (\<lambda>s x. jadd s (f x)) a xs = addInSequence a (map f xs)"
  by (induction xs arbitrary: a) simp_all

lemma costOrZero_spec: "costOrZero = specCostNumber"
  by (rule ext) (simp add: costOrZero_def specCostNumber_def)

lemma activitiesOrEmpty_spec: "activitiesOrEmpty = specActivities"
  by (rule ext) (simp add: activitiesOrEmpty_def specActivities_def)

lemma dayCost_rounded:
  "foldl (\<lambda>s a. jadd s (costOrZero a)) (Fin 0) (activitiesOrEmpty d) = specRoundedDayCost d"
  by (simp add: foldl_jadd_addInSequence specRoundedDayCost_def costOrZero_spec
      activitiesOrEmpty_spec)

lemma calculateTotalCost_rounded: "calculateTotalCost ds = specRoundedTotalCost ds"
  unfolding calculateTotalCost_def Let_def dayCost_rounded
  by (simp add: foldl_jadd_addInSequence specRoundedTotalCost_def)

lemma getTotalCost_rounded: "getTotalCost ds = specRoundedTotalCost ds"
  unfolding getTotalCost_def dayCost_rounded
  by (simp add: foldl_jadd_addInSequence specRoundedTotalCost_def)

lemma wholeDay_rounded:
  assumes "\<forall>a \<in> set (specActivities d). wholeNumberCost a"
    and "(\<Sum>a\<leftarrow>specActivities d. \<bar>specCost a\<bar>) \<le> 2 ^ 53"
  shows "specRoundedDayCost d = Fin (specDayCost d)"
proof -
  have c: "specCostNumber a = Fin (specCost a) \<and> wholeNumber (specCost a)"
    if "a \<in> set (specActivities d)" for a
    using assms(1) that
    by (auto simp: wholeNumberCost_def specCostNumber_def specCost_def
        split: option.splits jsnum.splits)
  have m: "map specCostNumber (specActivities d) = map Fin (map specCost (specActivities d))"
    using c by simp
  have "addInSequence (Fin 0) (map Fin (map specCost (specActivities d))) =
          Fin (0 + sum_list (map specCost (specActivities d)))"
    using c assms(2) by (intro addInSequence_whole) (simp_all add: comp_def)
  then show ?thesis by (simp add: specRoundedDayCost_def m specDayCost_def)
qed

lemma wholeNumberCosts_day:
  assumes "wholeNumberCosts ds" "d \<in> set ds"
  shows "\<forall>a \<in> set (specActivities d). wholeNumberCost a"
    and "(\<Sum>a\<leftarrow>specActivities d. \<bar>specCost a\<bar>) \<le> 2 ^ 53"
proof -
  show "\<forall>a \<in> set (specActivities d). wholeNumberCost a"
    using assms by (simp add: wholeNumberCosts_def)
  have "(\<Sum>a\<leftarrow>specActivities d. \<bar>specCost a\<bar>) \<le> (\<Sum>d\<leftarrow>ds. \<Sum>a\<leftarrow>specActivities d. \<bar>specCost a\<bar>)"
    using assms(2) by (intro member_le_sum_list) (auto simp: sum_list_abs_nonneg)
  then show "(\<Sum>a\<leftarrow>specActivities d. \<bar>specCost a\<bar>) \<le> 2 ^ 53"
    using assms(1) by (simp add: wholeNumberCosts_def)
qed

lemma whole_specDayCost:
  assumes "wholeNumberCosts ds" "d \<in> set ds"
  shows "wholeNumber (specDayCost d)"
  unfolding specDayCost_def
proof (rule wholeNumber_sum_list, rule ballI)
  fix a assume "a \<in> set (specActivities d)"
  then show "wholeNumber (specCost a)"
    using wholeNumberCosts_day(1)[OF assms]
    by (auto simp: wholeNumberCost_def specCost_def split: option.splits jsnum.splits)
qed

lemma wholeTotal_rounded:
  assumes "wholeNumberCosts ds"
  shows "specRoundedTotalCost ds = Fin (specTotalCost ds)"
proof -
  have m: "map specRoundedDayCost ds = map Fin (map specDayCost ds)"
    using wholeDay_rounded wholeNumberCosts_day[OF assms] by simp
  have "(\<Sum>d\<leftarrow>ds. \<bar>specDayCost d\<bar>) \<le> (\<Sum>d\<leftarrow>ds. \<Sum>a\<leftarrow>specActivities d. \<bar>specCost a\<bar>)"
    unfolding specDayCost_def by (rule sum_list_mono) (rule abs_sum_list_le)
  then have b: "\<bar>0::real\<bar> + (\<Sum>x\<leftarrow>map specDayCost ds. \<bar>x\<bar>) \<le> 2 ^ 53"
    using assms by (simp add: wholeNumberCosts_def comp_def)
  have "addInSequence (Fin 0) (map Fin (map specDayCost ds)) =
          Fin (0 + sum_list (map specDayCost ds))"
    using whole_specDayCost[OF assms] b by (intro addInSequence_whole) simp_all
  then show ?thesis by (simp add: specRoundedTotalCost_def m specTotalCost_def)
qed

section \<open>The example sums\<close>

text \<open>
  The additions, divisions and multiplications of the examples, and the doubles
  nearest to 89.1, 70.7, 60.3 and 220.1.
\<close>

lemma add_0_a:
  "jadd (Fin (0)) (Fin (3134927553114931 / 35184372088832)) =
     Fin (3134927553114931 / 35184372088832)"
  by (simp only: jadd.simps) (rule fl_eval_pos[where e = "6" and n = 6269855106229862],
      simp_all add: roundHalfEven_near)

lemma add_a_b:
  "jadd (Fin (3134927553114931 / 35184372088832)) (Fin (4975070213360845 / 70368744177664)) =
     Fin (2811231329897677 / 17592186044416)"
  by (simp only: jadd.simps) (rule fl_eval_pos[where e = "7" and n = 5622462659795354],
      simp_all add: roundHalfEven_tie[where f = 5622462659795353])

lemma add_ab_c:
  "jadd (Fin (2811231329897677 / 17592186044416)) (Fin (4243235273913139 / 70368744177664)) =
     Fin (1936020074187981 / 8796093022208)"
  by (simp only: jadd.simps) (rule fl_eval_pos[where e = "7" and n = 7744080296751924],
      simp_all add: roundHalfEven_tie[where f = 7744080296751923])

lemma add_0_abc:
  "jadd (Fin (0)) (Fin (1936020074187981 / 8796093022208)) =
     Fin (1936020074187981 / 8796093022208)"
  by (simp only: jadd.simps) (rule fl_eval_pos[where e = "7" and n = 7744080296751924],
      simp_all add: roundHalfEven_near)

lemma add_a_c:
  "jadd (Fin (3134927553114931 / 35184372088832)) (Fin (4243235273913139 / 70368744177664)) =
     Fin (1314136297517875 / 8796093022208)"
  by (simp only: jadd.simps) (rule fl_eval_pos[where e = "7" and n = 5256545190071500],
      simp_all add: roundHalfEven_tie[where f = 5256545190071500])

lemma add_ac_b:
  "jadd (Fin (1314136297517875 / 8796093022208)) (Fin (4975070213360845 / 70368744177664)) =
     Fin (3872040148375961 / 17592186044416)"
  by (simp only: jadd.simps) (rule fl_eval_pos[where e = "7" and n = 7744080296751922],
      simp_all add: roundHalfEven_tie[where f = 7744080296751922])

lemma add_0_acb:
  "jadd (Fin (0)) (Fin (3872040148375961 / 17592186044416)) =
     Fin (3872040148375961 / 17592186044416)"
  by (simp only: jadd.simps) (rule fl_eval_pos[where e = "7" and n = 7744080296751922],
      simp_all add: roundHalfEven_near)

lemma add_0_p:
  "jadd (Fin (0)) (Fin (7205759403792793 / 9007199254740992)) =
     Fin (7205759403792793 / 9007199254740992)"
  by (simp only: jadd.simps) (rule fl_eval_pos[where e = "- 1" and n = 7205759403792793],
      simp_all add: roundHalfEven_near)

lemma add_0_big: "jadd (Fin (0)) (Fin (9007199254740992)) = Fin (9007199254740992)"
  by (simp only: jadd.simps) (rule fl_eval_pos[where e = "53" and n = 4503599627370496],
      simp_all add: roundHalfEven_near)

lemma add_big_1: "jadd (Fin (9007199254740992)) (Fin (1)) = Fin (9007199254740992)"
  by (simp only: jadd.simps) (rule fl_eval_pos[where e = "53" and n = 4503599627370496],
      simp_all add: roundHalfEven_tie[where f = 4503599627370496])

lemma div_p_1:
  "jdiv (Fin (7205759403792793 / 9007199254740992)) (Fin 1) =
     Fin (7205759403792793 / 9007199254740992)"
proof -
  have "fl (7205759403792793 / 9007199254740992 / 1) = Fin (7205759403792793 / 9007199254740992)"
    by (rule fl_eval_pos[where e = "- 1" and n = 7205759403792793])
      (simp_all add: roundHalfEven_near)
  then show ?thesis by (simp only: jdiv.simps) simp
qed

lemma mul_p_100: "jmul (Fin (7205759403792793 / 9007199254740992)) (Fin 100) = Fin 80"
  by (simp only: jmul.simps) (rule fl_eval_pos[where e = "6" and n = 5629499534213120],
      simp_all add: roundHalfEven_near)

lemma div_acb_budget:
  "jdiv (Fin (3872040148375961 / 17592186044416)) (Fin (7744080296751923 / 35184372088832)) =
     Fin (9007199254740991 / 9007199254740992)"
proof -
  have "fl (3872040148375961 / 17592186044416 / (7744080296751923 / 35184372088832)) =
      Fin (9007199254740991 / 9007199254740992)"
    by (rule fl_eval_pos[where e = "- 1" and n = 9007199254740991])
      (simp_all add: roundHalfEven_near)
  then show ?thesis by (simp only: jdiv.simps) simp
qed

lemma mul_acb_100:
  "jmul (Fin (9007199254740991 / 9007199254740992)) (Fin 100) =
     Fin (7036874417766399 / 70368744177664)"
  by (simp only: jmul.simps) (rule fl_eval_pos[where e = "6" and n = 7036874417766399],
      simp_all add: roundHalfEven_near)

lemma fl_decimal_891: "fl (891 / 10) = Fin (3134927553114931 / 35184372088832)"
  by (rule fl_eval_pos[where e = "6" and n = 6269855106229862]) (simp_all add: roundHalfEven_near)

lemma fl_decimal_707: "fl (707 / 10) = Fin (4975070213360845 / 70368744177664)"
  by (rule fl_eval_pos[where e = "6" and n = 4975070213360845]) (simp_all add: roundHalfEven_near)

lemma fl_decimal_603: "fl (603 / 10) = Fin (4243235273913139 / 70368744177664)"
  by (rule fl_eval_pos[where e = "5" and n = 8486470547826278]) (simp_all add: roundHalfEven_near)

lemma fl_decimal_2201: "fl (2201 / 10) = Fin (7744080296751923 / 35184372088832)"
  by (rule fl_eval_pos[where e = "7" and n = 7744080296751923]) (simp_all add: roundHalfEven_near)

lemma fl_decimal_08_below:
  "fl (7205759403792793 / 9007199254740992) =
     Fin (7205759403792793 / 9007199254740992)"
  by (rule fl_eval_pos[where e = "- 1" and n = 7205759403792793])
      (simp_all add: roundHalfEven_near)

lemmas example_defs2 = example_defs dayDecimals_def dayDecimalsReordered_def dayBelowEighty_def
  dayLarge_def dayProto_def dayConstructor_def

lemmas spec_cost_defs = specRoundedTotalCost_def specRoundedDayCost_def specActivities_def
  specCostNumber_def specTotalCost_def specDayCost_def specCost_def

lemmas spec_category_defs = specCategoryCount_def specActivityCount_def specActivities_def
  specLabel_def

lemma isDouble_whole: "\<bar>z\<bar> \<le> 2 ^ 53 \<Longrightarrow> isDouble (of_int z)"
  unfolding isDouble_def by (rule fl_whole)

lemma wholeNumberCosts_example: "wholeNumberCosts [dayD1, dayD2, dayD3]"
  by (simp add: wholeNumberCosts_def wholeNumberCost_def wholeNumber_def specActivities_def
      specCost_def example_defs)

lemma wholeNumberCosts_dayD1: "wholeNumberCosts [dayD1]"
  by (simp add: wholeNumberCosts_def wholeNumberCost_def wholeNumber_def specActivities_def
      specCost_def example_defs)

lemma wholeNumberCosts_dayD3: "wholeNumberCosts [dayD3]"
  by (simp add: wholeNumberCosts_def wholeNumberCost_def wholeNumber_def specActivities_def
      specCost_def example_defs)

lemma specTotalCost_example: "specTotalCost [dayD1, dayD2, dayD3] = 40"
  by (simp add: spec_cost_defs example_defs)

lemma calculateTotalCost_example: "calculateTotalCost [dayD1, dayD2, dayD3] = Fin 40"
  using wholeTotal_rounded[OF wholeNumberCosts_example]
  by (simp add: calculateTotalCost_rounded specTotalCost_example)

section \<open>The total cost\<close>

text \<open>
  Claim C8 says that the total cost equals the sum of the costs. The code adds doubles,
  and every addition rounds. With the costs 89.1, 70.7 and 60.3, each the double
  nearest to the decimal, both functions return 220.10000000000002, which is not the
  sum of the three costs; with the same costs in the order 89.1, 60.3, 70.7 the result
  is 220.09999999999997.
\<close>

theorem total_cost_rounds:
  "fl (891 / 10) = Fin (3134927553114931 / 35184372088832) \<and>
   fl (707 / 10) = Fin (4975070213360845 / 70368744177664) \<and>
   fl (603 / 10) = Fin (4243235273913139 / 70368744177664) \<and>
   calculateTotalCost [dayDecimals] = Fin (1936020074187981 / 8796093022208) \<and>
   getTotalCost [dayDecimals] = Fin (1936020074187981 / 8796093022208) \<and>
   specTotalCost [dayDecimals] = 7744080296751923 / 35184372088832 \<and>
   (1936020074187981 / 8796093022208 :: real) \<noteq> 7744080296751923 / 35184372088832 \<and>
   calculateTotalCost [dayDecimalsReordered] = Fin (3872040148375961 / 17592186044416) \<and>
   getTotalCost [dayDecimalsReordered] = Fin (3872040148375961 / 17592186044416) \<and>
   specTotalCost [dayDecimalsReordered] = specTotalCost [dayDecimals]"
proof -
  have r1: "specRoundedTotalCost [dayDecimals] = Fin (1936020074187981 / 8796093022208)"
    by (simp add: spec_cost_defs example_defs2 add_0_a add_a_b add_ab_c add_0_abc
        del: jadd.simps)
  have r2: "specRoundedTotalCost [dayDecimalsReordered] = Fin (3872040148375961 / 17592186044416)"
    by (simp add: spec_cost_defs example_defs2 add_0_a add_a_c add_ac_b add_0_acb
        del: jadd.simps)
  have s1: "specTotalCost [dayDecimals] = 7744080296751923 / 35184372088832"
    by (simp add: spec_cost_defs example_defs2)
  have s2: "specTotalCost [dayDecimalsReordered] = 7744080296751923 / 35184372088832"
    by (simp add: spec_cost_defs example_defs2)
  have n: "(1936020074187981 / 8796093022208 :: real) \<noteq> 7744080296751923 / 35184372088832"
    by simp
  show ?thesis
    using r1 r2 s1 s2 n fl_decimal_891 fl_decimal_707 fl_decimal_603
    by (simp only: calculateTotalCost_rounded getTotalCost_rounded simp_thms)
qed

text \<open>
  Claim C8, amended. The total cost that \<open>calculateTotalCost\<close> and \<open>getTotalCost\<close>
  return is the sum of the costs taken in double arithmetic: the costs of a day are
  added one after the other, starting from 0, the sums of the days are added in the
  order of the days, starting from 0, and every addition rounds to the nearest double;
  an activity with a missing cost and a day with a missing activity list contribute 0.
  When every cost is a whole number and the absolute values of the costs add up to at
  most 2 to the power 53, the total is exactly the sum of the costs.
\<close>

theorem total_cost_in_double_arithmetic:
  "calculateTotalCost ds = specRoundedTotalCost ds \<and>
   getTotalCost ds = specRoundedTotalCost ds \<and>
   (wholeNumberCosts ds \<longrightarrow>
      calculateTotalCost ds = Fin (specTotalCost ds) \<and> getTotalCost ds = Fin (specTotalCost ds))"
proof (intro conjI impI)
  show "calculateTotalCost ds = specRoundedTotalCost ds"
    by (rule calculateTotalCost_rounded)
  show "getTotalCost ds = specRoundedTotalCost ds"
    by (rule getTotalCost_rounded)
next
  assume w: "wholeNumberCosts ds"
  have r: "specRoundedTotalCost ds = Fin (specTotalCost ds)"
    using w by (rule wholeTotal_rounded)
  show "calculateTotalCost ds = Fin (specTotalCost ds)"
    by (simp only: calculateTotalCost_rounded r)
  show "getTotalCost ds = Fin (specTotalCost ds)"
    by (simp only: getTotalCost_rounded r)
qed

theorem total_cost_in_double_arithmetic_witness:
  "calculateTotalCost [dayD1, dayD2, dayD3] = Fin 40 \<and>
   getTotalCost [dayD1, dayD2, dayD3] = Fin 40"
proof -
  have "calculateTotalCost [dayD1, dayD2, dayD3] = Fin (specTotalCost [dayD1, dayD2, dayD3]) \<and>
    getTotalCost [dayD1, dayD2, dayD3] = Fin (specTotalCost [dayD1, dayD2, dayD3])"
    using total_cost_in_double_arithmetic[of "[dayD1, dayD2, dayD3]"] wholeNumberCosts_example
    by blast
  then show ?thesis by (simp only: specTotalCost_example)
qed

section \<open>The over-budget predicate\<close>

text \<open>
  Claim C10 says that a day is over budget exactly when the sum of its costs is greater
  than the daily budget. The code compares the sum taken in double arithmetic. With the
  costs 89.1, 70.7 and 60.3 and the daily budget 220.1 the sum of the costs equals the
  budget, yet the day is reported as over budget, the computed sum being
  220.10000000000002. With the costs 2 to the power 53 and 1 and the daily budget 2 to
  the power 53 the sum of the costs is greater than the budget, yet the day is not
  reported as over budget, the computed sum being 2 to the power 53.
\<close>

theorem over_budget_at_equal_cost:
  "fl (2201 / 10) = Fin (7744080296751923 / 35184372088832) \<and>
   specDayCost dayDecimals = 7744080296751923 / 35184372088832 \<and>
   isOverBudget dayDecimals (Fin (7744080296751923 / 35184372088832)) \<and>
   specDayCost dayLarge > 9007199254740992 \<and>
   \<not> isOverBudget dayLarge (Fin 9007199254740992)"
proof -
  have r: "specRoundedDayCost dayDecimals = Fin (1936020074187981 / 8796093022208)"
    by (simp add: spec_cost_defs example_defs2 add_0_a add_a_b add_ab_c del: jadd.simps)
  have s: "specDayCost dayDecimals = 7744080296751923 / 35184372088832"
    by (simp add: spec_cost_defs example_defs2)
  have o: "isOverBudget dayDecimals (Fin (7744080296751923 / 35184372088832))"
    by (simp add: isOverBudget_def dayCost_rounded r)
  have r': "specRoundedDayCost dayLarge = Fin 9007199254740992"
    using add_0_big add_big_1
    by (simp add: spec_cost_defs example_defs2 del: jadd.simps)
  have s': "specDayCost dayLarge = 9007199254740993"
    by (simp add: spec_cost_defs example_defs2)
  have o': "\<not> isOverBudget dayLarge (Fin 9007199254740992)"
    by (simp add: isOverBudget_def dayCost_rounded r')
  show ?thesis using s o s' o' fl_decimal_2201 by simp
qed

text \<open>
  Claim C10, amended. \<open>isOverBudget(day, b)\<close> is true exactly when the day's cost as
  the code computes it is greater than \<open>b\<close>: the costs added one after the other in
  double arithmetic, starting from 0, a missing cost counting as 0. A day whose computed
  cost equals the daily budget is not reported as over budget. When every cost of the
  day is a whole number and the absolute values of the costs add up to at most 2 to the
  power 53, the computed cost is the sum of the costs: the day is over budget exactly
  when that sum is greater than \<open>b\<close>, and not when the sum equals \<open>b\<close>.
\<close>

theorem isOverBudget_in_double_arithmetic:
  "isOverBudget d dailyBudget = jgt (specRoundedDayCost d) dailyBudget \<and>
   \<not> isOverBudget d (specRoundedDayCost d) \<and>
   (wholeNumberCosts [d] \<longrightarrow>
      isOverBudget d (Fin b) = (specDayCost d > b) \<and> \<not> isOverBudget d (Fin (specDayCost d)))"
proof -
  have e: "isOverBudget d x = jgt (specRoundedDayCost d) x" for x
    by (simp add: isOverBudget_def dayCost_rounded)
  have n: "\<not> jgt x x" for x by (cases x) simp_all
  have w: "specRoundedDayCost d = Fin (specDayCost d)" if "wholeNumberCosts [d]"
    using wholeNumberCosts_day[OF that, of d] by (intro wholeDay_rounded) simp_all
  show ?thesis using e n w by simp
qed

theorem isOverBudget_in_double_arithmetic_witness:
  "isOverBudget dayD1 (Fin 34) \<and> \<not> isOverBudget dayD1 (Fin 35) \<and>
   \<not> isOverBudget dayD3 (Fin 0)"
proof -
  have s1: "specDayCost dayD1 = 35" by (simp add: spec_cost_defs example_defs)
  have s3: "specDayCost dayD3 = 0" by (simp add: spec_cost_defs example_defs)
  have a: "isOverBudget dayD1 (Fin 34) = (34 < specDayCost dayD1)"
    using isOverBudget_in_double_arithmetic[of dayD1 "Fin 34" 34] wholeNumberCosts_dayD1
    by blast
  have b: "isOverBudget dayD1 (Fin 35) = (35 < specDayCost dayD1)"
    using isOverBudget_in_double_arithmetic[of dayD1 "Fin 35" 35] wholeNumberCosts_dayD1
    by blast
  have c: "isOverBudget dayD3 (Fin 0) = (0 < specDayCost dayD3)"
    using isOverBudget_in_double_arithmetic[of dayD3 "Fin 0" 0] wholeNumberCosts_dayD3
    by blast
  show ?thesis by (simp add: a b c s1 s3)
qed

section \<open>The budget status\<close>

text \<open>
  The percentage \<open>(totalCost / budget) * 100\<close> is rounded twice. It reaches 100
  exactly when the total reaches the budget; it reaches 80 whenever the total is at
  least four fifths of the budget, and also for totals slightly below that.
\<close>

lemma jadd_isDouble: "jadd a b = Fin t \<Longrightarrow> isDouble t"
  by (cases a; cases b) (auto dest: fl_isDouble)

lemma addInSequence_isDouble:
  assumes "addInSequence a xs = Fin t" "\<forall>s. a = Fin s \<longrightarrow> isDouble s"
  shows "isDouble t"
  using assms
proof (induction xs arbitrary: a)
  case Nil
  then show ?case by simp
next
  case (Cons x xs)
  have "\<forall>s. jadd a x = Fin s \<longrightarrow> isDouble s" using jadd_isDouble by blast
  with Cons.IH[of "jadd a x"] Cons.prems(1) show ?case by simp
qed

lemma calculateTotalCost_isDouble:
  assumes "calculateTotalCost ds = Fin t"
  shows "isDouble t"
  using assms unfolding calculateTotalCost_rounded specRoundedTotalCost_def
  by (rule addInSequence_isDouble) simp

lemma fl_not_NaN [simp]: "fl x \<noteq> NaN"
  by (simp add: fl_def Let_def)

lemma percentage_lower:
  assumes "0 < b" "r \<le> t / b" "fl r = Fin r'" "fl (r' * 100) = Fin p"
  shows "jge (jmul (jdiv (Fin t) (Fin b)) (Fin 100)) (Fin p)"
proof -
  have d: "jdiv (Fin t) (Fin b) = fl (t / b)" using assms(1) by simp
  have m: "jge (fl (t / b)) (Fin r')" using fl_mono[OF assms(2)] by (simp add: assms(3))
  show ?thesis
  proof (cases "fl (t / b)")
    case (Fin q)
    then have "r' \<le> q" using m by simp
    then have "r' * 100 \<le> q * 100" by simp
    then have "jge (fl (q * 100)) (fl (r' * 100))" by (rule fl_mono)
    then show ?thesis unfolding d Fin by (simp add: assms(4))
  next
    case PInf
    then show ?thesis unfolding d by simp
  next
    case NInf
    then show ?thesis using m by simp
  next
    case NaN
    then show ?thesis by simp
  qed
qed

lemma percentage_upper:
  assumes "0 < b" "t / b \<le> r" "fl r = Fin r'" "fl (r' * 100) = Fin p"
  shows "jge (Fin p) (jmul (jdiv (Fin t) (Fin b)) (Fin 100))"
proof -
  have d: "jdiv (Fin t) (Fin b) = fl (t / b)" using assms(1) by simp
  have m: "jge (Fin r') (fl (t / b))" using fl_mono[OF assms(2)] by (simp add: assms(3))
  show ?thesis
  proof (cases "fl (t / b)")
    case (Fin q)
    then have "q \<le> r'" using m by simp
    then have "q * 100 \<le> r' * 100" by simp
    then have "jge (fl (r' * 100)) (fl (q * 100))" by (rule fl_mono)
    then show ?thesis unfolding d Fin by (simp add: assms(4))
  next
    case PInf
    then show ?thesis using m by simp
  next
    case NInf
    then show ?thesis unfolding d by simp
  next
    case NaN
    then show ?thesis by simp
  qed
qed

lemma jge_below: "jge (Fin p) x \<Longrightarrow> p < c \<Longrightarrow> \<not> jge x (Fin c)"
  by (cases x) auto

lemma fl_one: "fl 1 = Fin 1"
  using fl_whole[of 1] by simp

lemma fl_hundred: "fl 100 = Fin 100"
  using fl_whole[of 100] by simp

lemma percentage_over:
  assumes "0 < b" "b \<le> t"
  shows "jge (jmul (jdiv (Fin t) (Fin b)) (Fin 100)) (Fin 100)"
  using assms by (intro percentage_lower[where r = 1 and r' = 1]) (simp_all add: fl_one fl_hundred)

lemma percentage_not_over:
  assumes "isDouble t" "isDouble b" "0 < b" "t < b"
  shows "\<not> jge (jmul (jdiv (Fin t) (Fin b)) (Fin 100)) (Fin 100)"
proof -
  have "t \<le> b * (1 - 1 / 2 ^ 53)"
  proof (cases "0 < t")
    case True
    then show ?thesis using assms by (intro double_gap)
  next
    case False
    then have "t \<le> 0" by simp
    moreover have "0 \<le> b * (1 - 1 / 2 ^ 53)" using assms(3) by simp
    ultimately show ?thesis by linarith
  qed
  then have "t / b \<le> 1 - 1 / 2 ^ 53" using assms(3) by (simp add: field_simps)
  then have "jge (Fin (100 - 1 / 2 ^ 46)) (jmul (jdiv (Fin t) (Fin b)) (Fin 100))"
    using assms(3) fl_below_one fl_hundred_below_one
    by (intro percentage_upper[where r = "1 - 1 / 2 ^ 53" and r' = "1 - 1 / 2 ^ 53"]) simp_all
  then show ?thesis by (rule jge_below) simp
qed

lemma percentage_warning:
  assumes "0 < b" "4 / 5 * b \<le> t"
  shows "jge (jmul (jdiv (Fin t) (Fin b)) (Fin 100)) (Fin 80)"
proof -
  have "4 / 5 \<le> t / b" using assms by (simp add: field_simps)
  then show ?thesis
    using assms(1) fl_four_fifths fl_hundred_four_fifths
    by (intro percentage_lower[where r = "4 / 5" and r' = "3602879701896397 / 4503599627370496"])
       simp_all
qed

lemma percentage_good:
  assumes "0 < b" "t \<le> 900719925474099 / 2 ^ 50 * b"
  shows "\<not> jge (jmul (jdiv (Fin t) (Fin b)) (Fin 100)) (Fin 80)"
proof -
  have "t / b \<le> 900719925474099 / 2 ^ 50" using assms by (simp add: field_simps)
  then have "jge (Fin (80 - 1 / 2 ^ 46)) (jmul (jdiv (Fin t) (Fin b)) (Fin 100))"
    using assms(1) fl_theta fl_hundred_theta
    by (intro percentage_upper[where r = "900719925474099 / 2 ^ 50"
          and r' = "900719925474099 / 2 ^ 50"]) simp_all
  then show ?thesis by (rule jge_below) simp
qed

lemma status_cases:
  "status (getBudgetStatus budget ds) =
     (if jgt budget (Fin 0) then
        (if jge (jmul (jdiv (calculateTotalCost ds) budget) (Fin 100)) (Fin 100) then ''over''
         else if jge (jmul (jdiv (calculateTotalCost ds) budget) (Fin 100)) (Fin 80) then ''warning''
         else ''good'')
      else ''good'')"
  by (simp add: getBudgetStatus_def Let_def)

lemma over_iff:
  assumes "isDouble b" "0 < b" "\<forall>t. spent = Fin t \<longrightarrow> isDouble t"
  shows "jge (jmul (jdiv spent (Fin b)) (Fin 100)) (Fin 100) = jge spent (Fin b)"
proof (cases spent)
  case (Fin t)
  then have t: "isDouble t" using assms(3) by simp
  show ?thesis
  proof (cases "b \<le> t")
    case True
    then show ?thesis using percentage_over[OF assms(2) True] by (simp add: Fin)
  next
    case False
    then have "t < b" by simp
    then show ?thesis using percentage_not_over[OF t assms(1,2)] by (simp add: Fin)
  qed
next
  case PInf
  then show ?thesis using assms(2) by simp
next
  case NInf
  then show ?thesis using assms(2) by simp
next
  case NaN
  then show ?thesis by simp
qed

text \<open>
  Claim C7 says that the status is over whenever spent is at least the budget. With a
  budget of 0 spent is always at least the budget, but the code sets the percentage to
  0 unless the budget is greater than 0, so that the status is good: for a trip with no
  activities, and for one that costs 40. The thresholds are also tested on the rounded
  percentage and the rounded total: with the budget 220.1 and the costs 89.1, 60.3 and
  70.7, whose sum equals the budget, the computed total is 220.09999999999997 and the
  status is warning, not over; with the budget 1 and spent the double just below 0.8,
  the percentage rounds to 80 and the status is warning, not good.
\<close>

theorem budget_status_zero_budget:
  "status (getBudgetStatus (Fin 0) []) = ''good'' \<and>
   specBudgetStatus 0 (specTotalCost []) = ''over'' \<and>
   status (getBudgetStatus (Fin 0) [dayD1, dayD2, dayD3]) = ''good'' \<and>
   specBudgetStatus 0 (specTotalCost [dayD1, dayD2, dayD3]) = ''over'' \<and>
   fl (2201 / 10) = Fin (7744080296751923 / 35184372088832) \<and>
   status (getBudgetStatus (Fin (7744080296751923 / 35184372088832)) [dayDecimalsReordered]) =
     ''warning'' \<and>
   specBudgetStatus (7744080296751923 / 35184372088832) (specTotalCost [dayDecimalsReordered]) =
     ''over'' \<and>
   fl (7205759403792793 / 9007199254740992) = Fin (7205759403792793 / 9007199254740992) \<and>
   status (getBudgetStatus (Fin 1) [dayBelowEighty]) = ''warning'' \<and>
   specBudgetStatus 1 (specTotalCost [dayBelowEighty]) = ''good''"
proof -
  have t: "calculateTotalCost [dayBelowEighty] = Fin (7205759403792793 / 9007199254740992)"
    unfolding calculateTotalCost_rounded
    by (simp add: spec_cost_defs example_defs2 add_0_p del: jadd.simps)
  have s: "specTotalCost [dayBelowEighty] = 7205759403792793 / 9007199254740992"
    by (simp add: spec_cost_defs example_defs2)
  have w: "status (getBudgetStatus (Fin 1) [dayBelowEighty]) = ''warning''"
    by (simp add: status_cases t div_p_1 mul_p_100 del: jdiv.simps jmul.simps)
  have t': "calculateTotalCost [dayDecimalsReordered] = Fin (3872040148375961 / 17592186044416)"
    unfolding calculateTotalCost_rounded
    by (simp add: spec_cost_defs example_defs2 add_0_a add_a_c add_ac_b add_0_acb
        del: jadd.simps)
  have s': "specTotalCost [dayDecimalsReordered] = 7744080296751923 / 35184372088832"
    by (simp add: spec_cost_defs example_defs2)
  have w': "status (getBudgetStatus (Fin (7744080296751923 / 35184372088832))
      [dayDecimalsReordered]) = ''warning''"
    by (simp add: status_cases t' div_acb_budget mul_acb_100 del: jdiv.simps jmul.simps)
  have z: "status (getBudgetStatus (Fin 0) ds) = ''good''" for ds
    by (simp add: status_cases)
  have e: "specTotalCost [] = 0" by (simp add: specTotalCost_def)
  show ?thesis
    using w w' z fl_decimal_2201 fl_decimal_08_below
    by (simp add: s s' e specTotalCost_example specBudgetStatus_def)
qed

text \<open>
  Claim C7, amended. When the budget is not greater than 0 (zero, negative or not a
  number) the status is good. For a budget \<open>b\<close> greater than 0, with spent the total
  cost as the code computes it: the status is over exactly when spent is at least \<open>b\<close>;
  it is warning when spent is below \<open>b\<close> and at least 80 percent of \<open>b\<close>; it is good
  when spent is at most 900719925474099 / 2 to the power 50 (about 0.7999999999999998)
  times \<open>b\<close>. For spent between that bound and 80 percent of \<open>b\<close> the rounding of the
  percentage decides between warning and good. The remaining amount is the budget minus
  spent, rounded to the nearest double, and is negative when spent exceeds the budget.
\<close>

theorem budget_status_in_double_arithmetic:
  "(\<not> jgt budget (Fin 0) \<longrightarrow> status (getBudgetStatus budget ds) = ''good'') \<and>
   (isDouble b \<and> 0 < b \<and> budget = Fin b \<longrightarrow>
      (status (getBudgetStatus budget ds) = ''over'') = jge (calculateTotalCost ds) budget \<and>
      (calculateTotalCost ds = Fin t \<and> 4 / 5 * b \<le> t \<and> t < b \<longrightarrow>
         status (getBudgetStatus budget ds) = ''warning'') \<and>
      (calculateTotalCost ds = Fin t \<and> t \<le> 900719925474099 / 2 ^ 50 * b \<longrightarrow>
         status (getBudgetStatus budget ds) = ''good'')) \<and>
   remaining budget ds = jsub budget (calculateTotalCost ds)"
proof (intro conjI impI)
  show "status (getBudgetStatus budget ds) = ''good''" if "\<not> jgt budget (Fin 0)"
    using that by (simp add: status_cases)
  show "remaining budget ds = jsub budget (calculateTotalCost ds)"
    by (simp add: remaining_def)
next
  assume h: "isDouble b \<and> 0 < b \<and> budget = Fin b"
  then have b: "isDouble b" "0 < b" "budget = Fin b" by simp_all
  have d: "\<forall>t. calculateTotalCost ds = Fin t \<longrightarrow> isDouble t"
    using calculateTotalCost_isDouble by blast
  have o: "jge (jmul (jdiv (calculateTotalCost ds) (Fin b)) (Fin 100)) (Fin 100) =
             jge (calculateTotalCost ds) (Fin b)"
    using b(1,2) d by (rule over_iff)
  show "(status (getBudgetStatus budget ds) = ''over'') = jge (calculateTotalCost ds) budget"
    using b(2) o by (simp add: status_cases b(3))
  show "status (getBudgetStatus budget ds) = ''warning''"
    if "calculateTotalCost ds = Fin t \<and> 4 / 5 * b \<le> t \<and> t < b"
  proof -
    have "\<not> jge (calculateTotalCost ds) (Fin b)" using that by simp
    moreover have "jge (jmul (jdiv (calculateTotalCost ds) (Fin b)) (Fin 100)) (Fin 80)"
      using that percentage_warning[OF b(2), of t] by simp
    ultimately show ?thesis using b(2) o by (simp add: status_cases b(3))
  qed
  show "status (getBudgetStatus budget ds) = ''good''"
    if "calculateTotalCost ds = Fin t \<and> t \<le> 900719925474099 / 2 ^ 50 * b"
  proof -
    have n80: "\<not> jge (jmul (jdiv (calculateTotalCost ds) (Fin b)) (Fin 100)) (Fin 80)"
      using that percentage_good[OF b(2), of t] by simp
    have "t < b"
    proof -
      have "900719925474099 / 2 ^ 50 * b < 1 * b" using b(2) by (intro mult_strict_right_mono) simp_all
      then show ?thesis using that by simp
    qed
    then have "\<not> jge (calculateTotalCost ds) (Fin b)" using that by simp
    then show ?thesis using b(2) o n80 by (simp add: status_cases b(3))
  qed
qed

theorem budget_status_in_double_arithmetic_witness:
  "status (getBudgetStatus (Fin 100) [dayD1, dayD2, dayD3]) = ''good'' \<and>
   status (getBudgetStatus (Fin 50) [dayD1, dayD2, dayD3]) = ''warning'' \<and>
   status (getBudgetStatus (Fin 40) [dayD1, dayD2, dayD3]) = ''over'' \<and>
   status (getBudgetStatus (Fin 30) [dayD1, dayD2, dayD3]) = ''over'' \<and>
   status (getBudgetStatus (Fin (- 5)) [dayD1, dayD2, dayD3]) = ''good'' \<and>
   remaining (Fin 30) [dayD1, dayD2, dayD3] = Fin (- 10)"
proof -
  let ?ds = "[dayD1, dayD2, dayD3]"
  note t = calculateTotalCost_example
  have d: "isDouble 100" "isDouble 50" "isDouble 40" "isDouble 30"
    using isDouble_whole[of 100] isDouble_whole[of 50] isDouble_whole[of 40]
      isDouble_whole[of 30]
    by simp_all
  have g: "status (getBudgetStatus (Fin 100) ?ds) = ''good''"
    using budget_status_in_double_arithmetic[of "Fin 100" ?ds 100 40] d t by simp
  have w: "status (getBudgetStatus (Fin 50) ?ds) = ''warning''"
    using budget_status_in_double_arithmetic[of "Fin 50" ?ds 50 40] d t by simp
  have o: "status (getBudgetStatus (Fin 40) ?ds) = ''over''"
    using budget_status_in_double_arithmetic[of "Fin 40" ?ds 40 40] d t by simp
  have o': "status (getBudgetStatus (Fin 30) ?ds) = ''over''"
    using budget_status_in_double_arithmetic[of "Fin 30" ?ds 30 40] d t by simp
  have n: "status (getBudgetStatus (Fin (- 5)) ?ds) = ''good''"
    using budget_status_in_double_arithmetic[of "Fin (- 5)" ?ds 1 0] by simp
  have "fl (30 + - 40) = Fin (- 10)" using fl_whole[of "- 10"] by simp
  then have r: "remaining (Fin 30) ?ds = Fin (- 10)"
    using budget_status_in_double_arithmetic[of "Fin 30" ?ds 1 0] t by (simp add: jsub_def)
  show ?thesis using g w o o' n r by simp
qed

section \<open>The category breakdown\<close>

text \<open>
  On labels that name no property of \<open>Object.prototype\<close> the object \<open>categories\<close>
  behaves as a map from labels to counts.
\<close>

lemma categoryOrDefault_spec: "categoryOrDefault = specLabel"
  by (rule ext) (simp add: categoryOrDefault_def specLabel_def)

lemma ordinary_inheritedText:
  assumes "c \<notin> set objectPrototypeNames"
  shows "inheritedText nt c = None" and "c \<noteq> ''__proto__''"
  using assms by (auto simp: inheritedText_def objectPrototypeNames_def)

lemma fl_succ:
  assumes "Suc k \<le> 2 ^ 53"
  shows "fl (real k + 1) = Fin (real (Suc k))"
proof -
  have "real (Suc k) \<le> real (2 ^ 53)" using assms by (simp only: of_nat_le_iff)
  then have "\<bar>real (Suc k)\<bar> \<le> 2 ^ 53" by simp
  moreover have "wholeNumber (real (Suc k))"
    using wholeNumber_of_int[of "int (Suc k)"] by simp
  ultimately have "fl (real (Suc k)) = Fin (real (Suc k))" by (intro fl_whole_real)
  then show ?thesis by (simp add: add.commute)
qed

lemma countCategory_step:
  assumes "specLabel a \<notin> set objectPrototypeNames"
    and "\<forall>c. m c = (if n c = 0 then None else Some (NumV (Fin (real (n c)))))"
    and "Suc (n (specLabel a)) \<le> 2 ^ 53"
    and "n' = n(specLabel a := Suc (n (specLabel a)))"
  shows "countCategory nt m a c = (if n' c = 0 then None else Some (NumV (Fin (real (n' c)))))"
proof -
  note o = ordinary_inheritedText(1)[OF assms(1), of nt] ordinary_inheritedText(2)[OF assms(1)]
  have one: "fl (0 + 1) = Fin 1" using fl_whole[of 1] by simp
  have new: "(case m (specLabel a) of
               Some (NumV n) \<Rightarrow>
                 if n = NaN \<or> n = Fin 0 then NumV (jadd (Fin 0) (Fin 1))
                 else NumV (jadd n (Fin 1))
             | Some (StrV s) \<Rightarrow>
                 if s = [] then NumV (jadd (Fin 0) (Fin 1)) else StrV (s @ ''1'')
             | None \<Rightarrow>
                 (case inheritedText nt (specLabel a) of
                    None \<Rightarrow> NumV (jadd (Fin 0) (Fin 1))
                  | Some t \<Rightarrow> StrV (t @ ''1''))) = NumV (Fin (real (Suc (n (specLabel a)))))"
  proof (cases "n (specLabel a) = 0")
    case True
    then have "m (specLabel a) = None" using assms(2) by simp
    then show ?thesis using True o(1) one by simp
  next
    case False
    then have "m (specLabel a) = Some (NumV (Fin (real (n (specLabel a)))))"
      using assms(2) by simp
    then show ?thesis using False fl_succ[OF assms(3)] by simp
  qed
  show ?thesis
    unfolding countCategory_def Let_def categoryOrDefault_spec new
    using o(2) assms(2) by (simp add: assms(4))
qed

lemma foldl_countCategory:
  assumes "\<forall>a \<in> set acts. specLabel a \<notin> set objectPrototypeNames"
    and "\<forall>c. m c = (if n c = 0 then None else Some (NumV (Fin (real (n c)))))"
    and "\<forall>c. n c + length (filter (\<lambda>a. specLabel a = c) acts) \<le> 2 ^ 53"
  shows "foldl (countCategory nt) m acts c =
           (if n c + length (filter (\<lambda>a. specLabel a = c) acts) = 0 then None
            else Some (NumV (Fin (real (n c + length (filter (\<lambda>a. specLabel a = c) acts))))))"
  using assms
proof (induction acts arbitrary: m n)
  case Nil
  then show ?case by simp
next
  case (Cons a acts)
  define n' where "n' = n(specLabel a := Suc (n (specLabel a)))"
  have o: "specLabel a \<notin> set objectPrototypeNames" using Cons.prems(1) by simp
  have "n (specLabel a) + length (filter (\<lambda>x. specLabel x = specLabel a) (a # acts)) \<le> 2 ^ 53"
    using Cons.prems(3) by blast
  then have b: "Suc (n (specLabel a)) \<le> 2 ^ 53" by simp
  have m': "\<forall>c. countCategory nt m a c = (if n' c = 0 then None else Some (NumV (Fin (real (n' c)))))"
    using countCategory_step[OF o Cons.prems(2) b n'_def] by blast
  have c': "n' c + length (filter (\<lambda>x. specLabel x = c) acts) =
            n c + length (filter (\<lambda>x. specLabel x = c) (a # acts))" for c
    by (simp add: n'_def)
  have b': "\<forall>c. n' c + length (filter (\<lambda>x. specLabel x = c) acts) \<le> 2 ^ 53"
    using Cons.prems(3) unfolding c' by blast
  have "foldl (countCategory nt) (countCategory nt m a) acts c =
           (if n' c + length (filter (\<lambda>a. specLabel a = c) acts) = 0 then None
            else Some (NumV (Fin (real (n' c + length (filter (\<lambda>a. specLabel a = c) acts))))))"
    using Cons.prems(1) m' b' by (intro Cons.IH) simp_all
  then show ?case unfolding c' by simp
qed

lemma foldl_nested:
  "foldl (\<lambda>m d. foldl f m (g d)) m ds = foldl f m (concat (map g ds))"
  by (induction ds arbitrary: m) simp_all

lemma length_filter_concat:
  "length (filter P (concat (map g ds))) = (\<Sum>d\<leftarrow>ds. length (filter P (g d)))"
  by (induction ds) simp_all

lemma specCategoryCount_concat:
  "specCategoryCount ds c = length (filter (\<lambda>a. specLabel a = c) (concat (map specActivities ds)))"
  by (simp add: specCategoryCount_def length_filter_concat)

lemma specActivityCount_concat:
  "specActivityCount ds = length (concat (map specActivities ds))"
  by (simp add: specActivityCount_def length_concat comp_def)

lemma specCategoryCount_le: "specCategoryCount ds c \<le> specActivityCount ds"
  unfolding specCategoryCount_concat specActivityCount_concat by (rule length_filter_le)

lemma getCategoryBreakdown_count:
  assumes "ordinaryLabels ds" "specActivityCount ds \<le> 2 ^ 53"
  shows "getCategoryBreakdown nt ds c =
           (if specCategoryCount ds c = 0 then None
            else Some (NumV (Fin (real (specCategoryCount ds c)))))"
proof -
  have o: "\<forall>a \<in> set (concat (map specActivities ds)). specLabel a \<notin> set objectPrototypeNames"
    using assms(1) by (auto simp: ordinaryLabels_def)
  have b: "\<forall>c. (\<lambda>_. 0::nat) c + length (filter (\<lambda>a. specLabel a = c) (concat (map specActivities ds)))
             \<le> 2 ^ 53"
    using specCategoryCount_le[of ds] assms(2) unfolding specCategoryCount_concat
    by (auto intro: order_trans)
  have "foldl (countCategory nt) Map.empty (concat (map specActivities ds)) c =
          (if (\<lambda>_. 0::nat) c + length (filter (\<lambda>a. specLabel a = c) (concat (map specActivities ds))) = 0
           then None
           else Some (NumV (Fin (real ((\<lambda>_. 0::nat) c +
                  length (filter (\<lambda>a. specLabel a = c) (concat (map specActivities ds))))))))"
    using o _ b by (rule foldl_countCategory) simp
  then show ?thesis
    by (simp add: getCategoryBreakdown_def foldl_nested activitiesOrEmpty_spec
        specCategoryCount_concat)
qed

lemma length_filter_count:
  "length (filter (\<lambda>a. f a = c) xs) = count (mset (map f xs)) c"
  by (induction xs) auto

lemma getActivityCount_exact:
  assumes "specActivityCount ds \<le> 2 ^ 53"
  shows "getActivityCount ds = Fin (real (specActivityCount ds))"
proof -
  define xs where "xs = map (\<lambda>d. real (length (specActivities d))) ds"
  have w: "\<forall>x \<in> set xs. wholeNumber x"
    using wholeNumber_of_int[of "int (length (specActivities d))" for d]
    by (auto simp: xs_def)
  have s: "sum_list xs = real (specActivityCount ds)"
    by (simp add: xs_def specActivityCount_def comp_def) (induction ds, simp_all)
  have a: "(\<Sum>x\<leftarrow>xs. \<bar>x\<bar>) = sum_list xs"
    by (simp add: xs_def comp_def)
  have "real (specActivityCount ds) \<le> real (2 ^ 53)" using assms by (simp only: of_nat_le_iff)
  then have b: "\<bar>0::real\<bar> + (\<Sum>x\<leftarrow>xs. \<bar>x\<bar>) \<le> 2 ^ 53" by (simp add: a s)
  have "addInSequence (Fin 0) (map Fin xs) = Fin (0 + sum_list xs)"
    using w b by (intro addInSequence_whole) simp_all
  moreover have "getActivityCount ds = addInSequence (Fin 0) (map Fin xs)"
    by (simp add: getActivityCount_def foldl_jadd_addInSequence activitiesOrEmpty_spec xs_def
        comp_def)
  ultimately show ?thesis by (simp add: s)
qed

text \<open>
  Claim C9 says that the breakdown maps every category name to the number of
  activities carrying it and that the counts sum to the activity count. The object
  \<open>categories\<close> is a plain object. For an activity of category \<open>__proto__\<close> the
  assignment creates no property: the breakdown is empty although the activity count
  is 1. For an activity of category \<open>constructor\<close> the value read is the inherited
  function \<open>Object\<close>, and the value stored is a string, not the count 1.
\<close>

theorem prototype_named_category:
  "dom (getCategoryBreakdown v8NativeText [dayProto]) = {} \<and>
   specCategoryCount [dayProto] ''__proto__'' = 1 \<and>
   getActivityCount [dayProto] = Fin 1 \<and>
   getCategoryBreakdown v8NativeText [dayConstructor] ''constructor'' =
     Some (StrV ''function Object() { [native code] }1'') \<and>
   specCategoryCount [dayConstructor] ''constructor'' = 1"
proof -
  have "getCategoryBreakdown v8NativeText [dayProto] = Map.empty"
    by (simp add: getCategoryBreakdown_def countCategory_def categoryOrDefault_def
        activitiesOrEmpty_def example_defs2)
  then have p: "dom (getCategoryBreakdown v8NativeText [dayProto]) = {}" by simp
  have a: "getActivityCount [dayProto] = Fin 1"
    using getActivityCount_exact[of "[dayProto]"]
    by (simp add: spec_category_defs example_defs2)
  have c: "getCategoryBreakdown v8NativeText [dayConstructor] ''constructor'' =
     Some (StrV ''function Object() { [native code] }1'')"
    by (simp add: getCategoryBreakdown_def countCategory_def categoryOrDefault_def
        activitiesOrEmpty_def inheritedText_def objectPrototypeFunctions_def v8NativeText_def
        example_defs2)
  show ?thesis using p a c by (simp add: spec_category_defs example_defs2)
qed

text \<open>
  Claim C9, amended. For days in which no category label is the name of a property of
  \<open>Object.prototype\<close> (\<open>__proto__\<close>, \<open>constructor\<close>, \<open>toString\<close> and the like) and
  which hold at most 2 to the power 53 activities, the category breakdown has, for
  every label, the number of activities of that label as its value, and no entry for a
  label that no activity has; an activity whose category is missing or the empty string
  is counted under the label \<open>activity\<close>. The counts over all categories sum to the
  activity count, which is the sum of the lengths of the days' activity lists, a
  missing list counting as empty.
\<close>

theorem category_breakdown_of_ordinary_labels:
  assumes "ordinaryLabels ds" "specActivityCount ds \<le> 2 ^ 53"
  shows "getCategoryBreakdown nativeText ds c =
           (if specCategoryCount ds c = 0 then None
            else Some (NumV (Fin (real (specCategoryCount ds c))))) \<and>
         finite (dom (getCategoryBreakdown nativeText ds)) \<and>
         (\<Sum>k \<in> dom (getCategoryBreakdown nativeText ds).
            case getCategoryBreakdown nativeText ds k of Some (NumV (Fin x)) \<Rightarrow> x | _ \<Rightarrow> 0) =
           real (specActivityCount ds) \<and>
         getActivityCount ds = Fin (real (specActivityCount ds))"
proof -
  let ?m = "getCategoryBreakdown nativeText ds"
  let ?M = "mset (map specLabel (concat (map specActivities ds)))"
  note g = getCategoryBreakdown_count[OF assms, of nativeText]
  have cnt: "specCategoryCount ds k = count ?M k" for k
    unfolding specCategoryCount_concat by (rule length_filter_count)
  have d: "dom ?m = set_mset ?M"
  proof -
    have "dom ?m = {k. specCategoryCount ds k \<noteq> 0}" by (auto simp: dom_def g)
    also have "\<dots> = set_mset ?M" unfolding cnt by (auto simp: count_eq_zero_iff)
    finally show ?thesis .
  qed
  have f: "finite (dom ?m)" unfolding d by simp
  have "(\<Sum>k \<in> set_mset ?M. case ?m k of Some (NumV (Fin x)) \<Rightarrow> x | _ \<Rightarrow> 0) =
        (\<Sum>k \<in> set_mset ?M. real (count ?M k))"
  proof (rule sum.cong)
    fix k assume "k \<in> set_mset ?M"
    then have "specCategoryCount ds k \<noteq> 0" by (simp add: cnt count_eq_zero_iff)
    then show "(case ?m k of Some (NumV (Fin x)) \<Rightarrow> x | _ \<Rightarrow> 0) = real (count ?M k)"
      unfolding cnt[symmetric] by (simp add: g)
  qed simp
  also have "\<dots> = real (\<Sum>k \<in> set_mset ?M. count ?M k)" by simp
  also have "\<dots> = real (size ?M)" by (simp only: size_multiset_overloaded_eq)
  also have "\<dots> = real (specActivityCount ds)" by (simp add: specActivityCount_concat)
  finally have s: "(\<Sum>k \<in> dom ?m. case ?m k of Some (NumV (Fin x)) \<Rightarrow> x | _ \<Rightarrow> 0) =
      real (specActivityCount ds)" unfolding d .
  show ?thesis using g f s getActivityCount_exact[OF assms(2)] by blast
qed

theorem category_breakdown_of_ordinary_labels_witness:
  "getCategoryBreakdown v8NativeText [dayD1, dayD2, dayD3] ''food'' = Some (NumV (Fin 1)) \<and>
   getCategoryBreakdown v8NativeText [dayD1, dayD2, dayD3] ''activity'' = Some (NumV (Fin 3)) \<and>
   getCategoryBreakdown v8NativeText [dayD1, dayD2, dayD3] ''transport'' = Some (NumV (Fin 1)) \<and>
   getCategoryBreakdown v8NativeText [dayD1, dayD2, dayD3] ''shopping'' = None \<and>
   getActivityCount [dayD1, dayD2, dayD3] = Fin 5"
proof -
  let ?ds = "[dayD1, dayD2, dayD3]"
  have o: "ordinaryLabels ?ds"
    by (simp add: ordinaryLabels_def objectPrototypeNames_def objectPrototypeFunctions_def
        spec_category_defs example_defs)
  have n: "specActivityCount ?ds \<le> 2 ^ 53" by (simp add: spec_category_defs example_defs)
  have c: "specCategoryCount ?ds ''food'' = 1" "specCategoryCount ?ds ''activity'' = 3"
    "specCategoryCount ?ds ''transport'' = 1" "specCategoryCount ?ds ''shopping'' = 0"
    "specActivityCount ?ds = 5"
    by (simp_all add: spec_category_defs example_defs)
  show ?thesis
    using category_breakdown_of_ordinary_labels[OF o n, of v8NativeText "''food''"]
      category_breakdown_of_ordinary_labels[OF o n, of v8NativeText "''activity''"]
      category_breakdown_of_ordinary_labels[OF o n, of v8NativeText "''transport''"]
      category_breakdown_of_ordinary_labels[OF o n, of v8NativeText "''shopping''"]
    by (simp add: c)
qed

end
